theory Spec2Isabelle
  imports Main
begin

section \<open>The real-time synchronisation hook \<open>useWebSocket\<close>\<close>

text \<open>
  The hook keeps one WebSocket to the server, republishes its open/closed state as a
  flag, sends a keepalive frame, merges pushed printer status into the query cache and
  coalesces cache invalidations. Its callbacks run one at a time on the browser's event
  loop, so the embedding is a record of everything the callbacks read and write, one
  HOL function per callback, and an event function that says which callback the
  platform runs next.
\<close>

subsection \<open>Values, messages and frames\<close>

text \<open>
  \<open>unknown\<close> payload values are JSON values. The code only ever asks whether such a
  value is \<open>null\<close> or \<open>undefined\<close>; numbers are carried as integers.
\<close>

datatype json =
    JNull
  | JBool bool
  | JNum int
  | JStr string
  | JArr "json list"
  | JObj "(string \<times> json) list"

text \<open>\<open>Record<string, unknown>\<close>: an absent field is \<open>None\<close>, the reading of \<open>undefined\<close>.\<close>

type_synonym snapshot = "string \<rightharpoonup> json"

text \<open>The interface \<open>WebSocketMessage\<close>; an optional field that is absent is \<open>None\<close>.\<close>

record WebSocketMessage =
  type :: string
  printer_id :: "int option"
  data :: "snapshot option"

text \<open>
  The text of an inbound frame (\<open>event.data\<close>), as \<open>JSON.parse\<close> sees it: either it
  throws a \<open>SyntaxError\<close>, or it yields a message. The handler uses the parsed value
  at the declared type \<open>WebSocketMessage\<close>, and so does the model.
\<close>

datatype frame = Undecodable | Decoded WebSocketMessage

datatype error = SyntaxError | InvalidStateError

definition JSON_parse :: "frame \<Rightarrow> error + WebSocketMessage" where
  "JSON_parse f = (case f of Undecodable \<Rightarrow> Inl SyntaxError | Decoded m \<Rightarrow> Inr m)"

subsection \<open>The state\<close>

datatype readyState = CONNECTING | OPEN | CLOSING | CLOSED

text \<open>
  One entry per \<open>new WebSocket\<close>: the socket's \<open>readyState\<close> and the variable
  \<open>pingInterval\<close> local to the call of \<open>connect\<close> that constructed it. A handle is the
  index of its entry.
\<close>

record conn =
  readyState :: readyState
  pingInterval :: "nat option"

text \<open>The callbacks handed to \<open>setTimeout\<close> and \<open>setInterval\<close>.\<close>

datatype task = Reconnect | Flush | Ping nat

text \<open>A pending timer; \<open>period\<close> is \<open>None\<close> for a timeout and the interval otherwise.\<close>

record timer =
  ident :: nat
  due :: nat
  period :: "nat option"
  callback :: task

text \<open>A query key is \<open>[name]\<close> or \<open>[name, id]\<close>.\<close>

type_synonym queryKey = "string \<times> int option"

text \<open>Where the consuming component stands: the effect has not run, has run, or was cleaned up.\<close>

datatype phase = Unattached | Attached | Detached

text \<open>
  The first five fields are the hook's refs and React state. \<open>queryData\<close> and
  \<open>invalidated\<close> are the query client: the cached data and the log of calls of
  \<open>invalidateQueries\<close>. The rest is the platform: the sockets, the frames handed to
  \<open>WebSocket.send\<close> (each as the object given to \<open>JSON.stringify\<close>), the pending timers
  and the last timer id handed out, the callbacks waiting for the next animation frame
  (each with the keys it captured), and the clock in milliseconds.
\<close>

record hook =
  wsRef :: "nat option"
  reconnectTimeoutRef :: "nat option"
  isConnected :: bool
  pendingInvalidations :: "string list"
  invalidationTimeoutRef :: "nat option"
  conns :: "conn list"
  queryData :: "queryKey \<rightharpoonup> snapshot"
  invalidated :: "string list"
  sent :: "(nat \<times> snapshot) list"
  timers :: "timer list"
  timerSeq :: nat
  frames :: "string list list"
  now :: nat
  phase :: phase

definition initial :: hook where
  "initial = \<lparr> wsRef = None, reconnectTimeoutRef = None, isConnected = False,
     pendingInvalidations = [], invalidationTimeoutRef = None, conns = [],
     queryData = Map.empty, invalidated = [], sent = [], timers = [], timerSeq = 0,
     frames = [], now = 0, phase = Unattached \<rparr>"

subsection \<open>The platform's operations\<close>

text \<open>\<open>ws.readyState\<close> of handle \<open>h\<close>; \<open>None\<close> when no such socket was constructed.\<close>

definition stateOf :: "hook \<Rightarrow> nat \<Rightarrow> readyState option" where
  "stateOf s h = (if h < length (conns s) then Some (readyState (conns s ! h)) else None)"

definition setReadyState :: "nat \<Rightarrow> readyState \<Rightarrow> hook \<Rightarrow> hook" where
  "setReadyState h r s =
     (if h < length (conns s)
      then s\<lparr>conns := (conns s)[h := (conns s ! h)\<lparr>readyState := r\<rparr>]\<rparr> else s)"

text \<open>\<open>new WebSocket(wsUrl)\<close>: a further socket, connecting; its handle is returned.\<close>

definition newWebSocket :: "hook \<Rightarrow> nat \<times> hook" where
  "newWebSocket s =
     (length (conns s),
      s\<lparr>conns := conns s @ [\<lparr>readyState = CONNECTING, pingInterval = None\<rparr>]\<rparr>)"

text \<open>
  \<open>ws.close()\<close>: a connecting or open socket starts closing, and its close event follows
  later; on a closing or closed socket nothing happens.
\<close>

definition ws_close :: "nat \<Rightarrow> hook \<Rightarrow> hook" where
  "ws_close h s =
     (if stateOf s h = Some CONNECTING \<or> stateOf s h = Some OPEN
      then setReadyState h CLOSING s else s)"

text \<open>
  \<open>ws.send(data)\<close>: throws on a connecting socket, transmits on an open one, and
  discards the data on a closing or closed one.
\<close>

definition ws_send :: "nat \<Rightarrow> snapshot \<Rightarrow> hook \<Rightarrow> error + hook" where
  "ws_send h m s =
     (if stateOf s h = Some CONNECTING then Inl InvalidStateError
      else if stateOf s h = Some OPEN then Inr (s\<lparr>sent := sent s @ [(h, m)]\<rparr>)
      else Inr s)"

text \<open>
  \<open>window.setTimeout(cb, delay)\<close> and \<open>window.setInterval(cb, delay)\<close> return a fresh
  positive id; \<open>clearTimeout\<close> and \<open>clearInterval\<close> drop the timer of that id, if it is
  still pending. An id is never zero, so where the hook tests a ref for truth
  (\<open>if (reconnectTimeoutRef.current)\<close>) it tests it for \<open>null\<close>: a ref is \<open>None\<close> or
  \<open>Some\<close> id.
\<close>

definition setTimeout :: "task \<Rightarrow> nat \<Rightarrow> hook \<Rightarrow> nat \<times> hook" where
  "setTimeout cb delay s =
     (let t = Suc (timerSeq s)
      in (t, s\<lparr>timerSeq := t,
               timers := timers s @
                 [\<lparr>ident = t, due = now s + delay, period = None, callback = cb\<rparr>]\<rparr>))"

definition setInterval :: "task \<Rightarrow> nat \<Rightarrow> hook \<Rightarrow> nat \<times> hook" where
  "setInterval cb delay s =
     (let t = Suc (timerSeq s)
      in (t, s\<lparr>timerSeq := t,
               timers := timers s @
                 [\<lparr>ident = t, due = now s + delay, period = Some delay, callback = cb\<rparr>]\<rparr>))"

definition clearTimeout :: "nat \<Rightarrow> hook \<Rightarrow> hook" where
  "clearTimeout t s = s\<lparr>timers := filter (\<lambda>x. ident x \<noteq> t) (timers s)\<rparr>"

definition clearInterval :: "nat \<Rightarrow> hook \<Rightarrow> hook" where
  "clearInterval t s = clearTimeout t s"

subsection \<open>The hook's callbacks\<close>

text \<open>
  \<open>connect\<close>: return when the socket in \<open>wsRef\<close> is open; otherwise construct a socket
  and store it in \<open>wsRef\<close>. The handlers it installs are the functions below, which take
  the handle of their socket. The URL is the same at every call (the page's protocol and
  host, and the path \<open>/api/v1/ws\<close>) and is left out, as are the calls of \<open>console\<close>.
\<close>

definition connect :: "hook \<Rightarrow> hook" where
  "connect s =
     (if (case wsRef s of None \<Rightarrow> False | Some h \<Rightarrow> stateOf s h = Some OPEN) then s
      else (let (ws, s1) = newWebSocket s in s1\<lparr>wsRef := Some ws\<rparr>))"

definition pingFrame :: snapshot where
  "pingFrame = [''type'' \<mapsto> JStr ''ping'']"

text \<open>The interval's callback: send a ping if the socket is open.\<close>

definition pingTick :: "nat \<Rightarrow> hook \<Rightarrow> error + hook" where
  "pingTick ws s = (if stateOf s ws = Some OPEN then ws_send ws pingFrame s else Inr s)"

definition setPingInterval :: "nat \<Rightarrow> nat option \<Rightarrow> hook \<Rightarrow> hook" where
  "setPingInterval ws v s =
     (if ws < length (conns s)
      then s\<lparr>conns := (conns s)[ws := (conns s ! ws)\<lparr>pingInterval := v\<rparr>]\<rparr> else s)"

definition getPingInterval :: "hook \<Rightarrow> nat \<Rightarrow> nat option" where
  "getPingInterval s ws = (if ws < length (conns s) then pingInterval (conns s ! ws) else None)"

definition onopen :: "nat \<Rightarrow> hook \<Rightarrow> hook" where
  "onopen ws s =
     (let s1 = s\<lparr>isConnected := True\<rparr>;
          (t, s2) = setInterval (Ping ws) 30000 s1
      in setPingInterval ws (Some t) s2)"

definition onclose :: "nat \<Rightarrow> hook \<Rightarrow> hook" where
  "onclose ws s =
     (let s1 = (case getPingInterval s ws of
                  None \<Rightarrow> s
                | Some t \<Rightarrow> setPingInterval ws None (clearInterval t s));
          s2 = s1\<lparr>isConnected := False, wsRef := None\<rparr>;
          (t, s3) = setTimeout Reconnect 3000 s2
      in s3\<lparr>reconnectTimeoutRef := Some t\<rparr>)"

definition onerror :: "nat \<Rightarrow> hook \<Rightarrow> hook" where
  "onerror ws s = ws_close ws s"

text \<open>\<open>Set.add\<close>; a JavaScript set keeps its elements in the order they were first added.\<close>

definition set_add :: "string \<Rightarrow> string list \<Rightarrow> string list" where
  "set_add k ks = (if k \<in> set ks then ks else ks @ [k])"

definition debouncedInvalidate :: "string \<Rightarrow> hook \<Rightarrow> hook" where
  "debouncedInvalidate queryKey s =
     (let s1 = s\<lparr>pendingInvalidations := set_add queryKey (pendingInvalidations s)\<rparr>;
          s2 = (case invalidationTimeoutRef s1 of
                  None \<Rightarrow> s1
                | Some t \<Rightarrow> clearTimeout t s1);
          (t, s3) = setTimeout Flush 100 s2
      in s3\<lparr>invalidationTimeoutRef := Some t\<rparr>)"

text \<open>
  The timeout's callback: take the pending keys, empty the set, forget the timer, and
  hand the keys to \<open>requestAnimationFrame\<close>.
\<close>

definition flush :: "hook \<Rightarrow> hook" where
  "flush s =
     (let keys = pendingInvalidations s
      in s\<lparr>pendingInvalidations := [], invalidationTimeoutRef := None,
           frames := frames s @ [keys]\<rparr>)"

text \<open>The animation-frame callback: one \<open>invalidateQueries\<close> for each captured key, in order.\<close>

definition invalidateAll :: "string list \<Rightarrow> hook \<Rightarrow> hook" where
  "invalidateAll keys s = s\<lparr>invalidated := invalidated s @ keys\<rparr>"

text \<open>\<open>{...x}\<close> of a record that may be \<open>undefined\<close>.\<close>

definition spread :: "snapshot option \<Rightarrow> snapshot" where
  "spread x = (case x of None \<Rightarrow> Map.empty | Some m \<Rightarrow> m)"

text \<open>\<open>v == null\<close>: true of \<open>null\<close> and of \<open>undefined\<close>.\<close>

definition nullish :: "json option \<Rightarrow> bool" where
  "nullish v = (v = None \<or> v = Some JNull)"

text \<open>The updater given to \<open>setQueryData\<close> in the \<open>printer_status\<close> case.\<close>

definition mergeStatus :: "snapshot option \<Rightarrow> snapshot option \<Rightarrow> snapshot" where
  "mergeStatus old payload =
     (let merged = spread old ++ spread payload
      in if nullish (merged ''wifi_signal'') \<and> \<not> nullish (spread old ''wifi_signal'')
         then merged(''wifi_signal'' := spread old ''wifi_signal'')
         else merged)"

text \<open>\<open>queryClient.setQueryData(key, updater)\<close> with an updater that never returns \<open>undefined\<close>.\<close>

definition setQueryData :: "queryKey \<Rightarrow> (snapshot option \<Rightarrow> snapshot) \<Rightarrow> hook \<Rightarrow> hook" where
  "setQueryData key updater s = s\<lparr>queryData := (queryData s)(key \<mapsto> updater (queryData s key))\<rparr>"

definition handleMessage :: "WebSocketMessage \<Rightarrow> hook \<Rightarrow> hook" where
  "handleMessage message s =
     (if type message = ''printer_status'' then
        (case printer_id message of
           None \<Rightarrow> s
         | Some pid \<Rightarrow>
             setQueryData (''printerStatus'', Some pid)
               (\<lambda>old. mergeStatus old (data message)) s)
      else if type message = ''print_complete'' then
        debouncedInvalidate ''archiveStats'' (debouncedInvalidate ''archives'' s)
      else if type message = ''archive_created'' then
        debouncedInvalidate ''archiveStats'' (debouncedInvalidate ''archives'' s)
      else if type message = ''archive_updated'' then
        debouncedInvalidate ''archives'' s
      else if type message = ''pong'' then s
      else s)"

text \<open>
  \<open>ws.onmessage\<close>: whatever is thrown inside the \<open>try\<close> block is caught and dropped. The
  block changes nothing before \<open>JSON.parse\<close> returns, so a caught error leaves the state
  as it was.
\<close>

definition onmessage :: "frame \<Rightarrow> hook \<Rightarrow> error + hook" where
  "onmessage event_data s =
     (case (case JSON_parse event_data of
              Inl e \<Rightarrow> Inl e
            | Inr message \<Rightarrow> Inr (handleMessage message s)) of
        Inl e \<Rightarrow> Inr s
      | Inr s' \<Rightarrow> Inr s')"

text \<open>The effect: \<open>connect()\<close> on attach; the returned cleanup on detach.\<close>

definition effect_setup :: "hook \<Rightarrow> hook" where
  "effect_setup s = connect s"

definition effect_cleanup :: "hook \<Rightarrow> hook" where
  "effect_cleanup s =
     (let s1 = (case reconnectTimeoutRef s of None \<Rightarrow> s | Some t \<Rightarrow> clearTimeout t s);
          s2 = (case invalidationTimeoutRef s1 of None \<Rightarrow> s1 | Some t \<Rightarrow> clearTimeout t s1)
      in (case wsRef s2 of None \<Rightarrow> s2 | Some h \<Rightarrow> ws_close h s2))"

definition sendMessage :: "snapshot \<Rightarrow> hook \<Rightarrow> error + hook" where
  "sendMessage message s =
     (case wsRef s of
        None \<Rightarrow> Inr s
      | Some h \<Rightarrow> if stateOf s h = Some OPEN then ws_send h message s else Inr s)"

subsection \<open>The event loop\<close>

text \<open>
  What the platform can do next: run the effect or its cleanup, deliver one of a
  socket's events, run a timer that is due, run the animation-frame callbacks, let time
  pass, or (the consumer) call \<open>sendMessage\<close>.
\<close>

datatype event =
    Attach
  | Detach
  | OnOpen nat
  | OnMessage nat frame
  | OnError nat
  | OnClose nat
  | TimerDue nat
  | AnimationFrame
  | Elapse nat
  | Send snapshot

definition runTask :: "task \<Rightarrow> hook \<Rightarrow> error + hook" where
  "runTask cb s =
     (case cb of Reconnect \<Rightarrow> Inr (connect s) | Flush \<Rightarrow> Inr (flush s) | Ping ws \<Rightarrow> pingTick ws s)"

text \<open>A timeout that runs is no longer pending; an interval is due again one period later.\<close>

definition expire :: "timer \<Rightarrow> hook \<Rightarrow> hook" where
  "expire x s =
     (case period x of
        None \<Rightarrow> s\<lparr>timers := filter (\<lambda>y. ident y \<noteq> ident x) (timers s)\<rparr>
      | Some p \<Rightarrow>
          s\<lparr>timers := map (\<lambda>y. if ident y = ident x then y\<lparr>due := due y + p\<rparr> else y) (timers s)\<rparr>)"

text \<open>
  \<open>fire e s\<close> is the state after the platform has done \<open>e\<close>, and \<open>None\<close> when it cannot
  do \<open>e\<close> in \<open>s\<close>:
  \<^item> the effect runs once and its cleanup once, after it;
  \<^item> a socket opens only while connecting, receives only while open, and reports an
    error or its close only as long as its close event has not been delivered; the
    socket is open when \<open>onopen\<close> runs and closed when \<open>onclose\<close> runs;
  \<^item> an error event comes before the close event of its socket. Here the handler's
    \<open>ws.close()\<close> leaves the socket closing until that close event; a browser has
    marked the socket closed already. The hook cannot tell the two apart, since it only
    ever tests a socket for \<open>OPEN\<close>;
  \<^item> a timer runs when it is due, and time does not pass beyond a pending timer: timers
    are taken to run on time;
  \<^item> a callback that ends with an uncaught exception gives \<open>None\<close> too.
\<close>

definition fire :: "event \<Rightarrow> hook \<Rightarrow> hook option" where
  "fire e s =
     (case e of
        Attach \<Rightarrow>
          if phase s = Unattached then Some (effect_setup (s\<lparr>phase := Attached\<rparr>)) else None
      | Detach \<Rightarrow>
          if phase s = Attached then Some (effect_cleanup (s\<lparr>phase := Detached\<rparr>)) else None
      | OnOpen h \<Rightarrow>
          if stateOf s h = Some CONNECTING then Some (onopen h (setReadyState h OPEN s))
          else None
      | OnMessage h f \<Rightarrow>
          if stateOf s h = Some OPEN
          then (case onmessage f s of Inl err \<Rightarrow> None | Inr s' \<Rightarrow> Some s')
          else None
      | OnError h \<Rightarrow>
          if stateOf s h \<noteq> None \<and> stateOf s h \<noteq> Some CLOSED then Some (onerror h s) else None
      | OnClose h \<Rightarrow>
          if stateOf s h \<noteq> None \<and> stateOf s h \<noteq> Some CLOSED
          then Some (onclose h (setReadyState h CLOSED s)) else None
      | TimerDue t \<Rightarrow>
          (case find (\<lambda>x. ident x = t) (timers s) of
             None \<Rightarrow> None
           | Some x \<Rightarrow>
               if due x \<le> now s
               then (case runTask (callback x) (expire x s) of
                       Inl err \<Rightarrow> None | Inr s' \<Rightarrow> Some s')
               else None)
      | AnimationFrame \<Rightarrow> Some (fold invalidateAll (frames s) (s\<lparr>frames := []\<rparr>))
      | Elapse d \<Rightarrow>
          if list_all (\<lambda>x. now s + d \<le> due x) (timers s) then Some (s\<lparr>now := now s + d\<rparr>)
          else None
      | Send m \<Rightarrow> (case sendMessage m s of Inl err \<Rightarrow> None | Inr s' \<Rightarrow> Some s'))"

fun run :: "event list \<Rightarrow> hook \<Rightarrow> hook option" where
  "run [] s = Some s"
| "run (e # es) s = (case fire e s of None \<Rightarrow> None | Some s' \<Rightarrow> run es s')"

section \<open>What the claims speak of\<close>

subsection \<open>Connection states and timers\<close>

text \<open>The connection is open: the socket held in \<open>wsRef\<close> is, which is what the hook tests.\<close>

definition isOpen :: "hook \<Rightarrow> bool" where
  "isOpen s = (case wsRef s of None \<Rightarrow> False | Some h \<Rightarrow> stateOf s h = Some OPEN)"

text \<open>A live handle is a socket that is connecting or open.\<close>

definition liveAt :: "hook \<Rightarrow> nat \<Rightarrow> bool" where
  "liveAt s h = (stateOf s h = Some CONNECTING \<or> stateOf s h = Some OPEN)"

text \<open>The pending timers that will run a given callback.\<close>

definition pendingOf :: "task \<Rightarrow> hook \<Rightarrow> timer list" where
  "pendingOf cb s = filter (\<lambda>x. callback x = cb) (timers s)"

text \<open>The keepalive timer of a socket runs: its interval is pending.\<close>

definition armed :: "hook \<Rightarrow> nat \<Rightarrow> bool" where
  "armed s h = (pendingOf (Ping h) s \<noteq> [])"

subsection \<open>The most recent lifecycle event\<close>

text \<open>
  Open events say that the connection is up and close events that it is down; whether an
  error event says so too is the parameter. The most recent lifecycle event of a sequence
  is an open event when the last of these verdicts is \<open>True\<close>.
\<close>

definition lifecycle :: "bool \<Rightarrow> event \<Rightarrow> bool option" where
  "lifecycle errorEnds e =
     (case e of
        OnOpen h \<Rightarrow> Some True
      | OnClose h \<Rightarrow> Some False
      | OnError h \<Rightarrow> if errorEnds then Some False else None
      | _ \<Rightarrow> None)"

definition mostRecentIsOpen :: "bool \<Rightarrow> event list \<Rightarrow> bool" where
  "mostRecentIsOpen errorEnds es =
     (case List.map_filter (lifecycle errorEnds) es of [] \<Rightarrow> False | b # bs \<Rightarrow> last (b # bs))"

subsection \<open>A burst of invalidation requests\<close>

text \<open>
  Requests arriving one after the other: before each request the given time passes,
  and no timer runs in between, so a gap must not reach beyond a pending timer.
\<close>

fun burst :: "(nat \<times> string) list \<Rightarrow> hook \<Rightarrow> hook option" where
  "burst [] s = Some s"
| "burst ((gap, queryKey) # rs) s =
     (case fire (Elapse gap) s of
        None \<Rightarrow> None
      | Some s1 \<Rightarrow> burst rs (debouncedInvalidate queryKey s1))"

text \<open>Nothing is pending in the coalescer, and the timer ids in use were handed out.\<close>

definition idle :: "hook \<Rightarrow> bool" where
  "idle s =
     (pendingInvalidations s = [] \<and> invalidationTimeoutRef s = None \<and> frames s = [] \<and>
      pendingOf Flush s = [] \<and> list_all (\<lambda>x. ident x \<le> timerSeq s) (timers s))"

subsection \<open>The merge, in the words of the specification\<close>

text \<open>
  The shallow union of the old snapshot and the payload, the payload winning in every
  field it has.
\<close>

definition spec_union :: "snapshot \<Rightarrow> snapshot \<Rightarrow> snapshot" where
  "spec_union S P = (\<lambda>f. case P f of Some v \<Rightarrow> Some v | None \<Rightarrow> S f)"

text \<open>
  The union, except that the sticky field \<open>wifi_signal\<close> keeps the old value when the
  union has none or \<open>null\<close> there and the old snapshot held a value that is not \<open>null\<close>.
  An absent old snapshot counts as the empty one.
\<close>

definition spec_merge :: "snapshot option \<Rightarrow> snapshot \<Rightarrow> snapshot" where
  "spec_merge S P =
     (\<lambda>f. let S0 = (case S of None \<Rightarrow> Map.empty | Some m \<Rightarrow> m);
              u = spec_union S0 P f
          in if f = ''wifi_signal'' \<and> (u = None \<or> u = Some JNull) \<and>
                S0 f \<noteq> None \<and> S0 f \<noteq> Some JNull
             then S0 f else u)"

definition idleSnapshot :: snapshot where
  "idleSnapshot = [''wifi_signal'' \<mapsto> JNum (- 42), ''state'' \<mapsto> JStr ''IDLE'']"

section \<open>Invariants\<close>

subsection \<open>One handle at a time\<close>

text \<open>A socket whose close event is still to come.\<close>

definition unclosedAt :: "hook \<Rightarrow> nat \<Rightarrow> bool" where
  "unclosedAt s h = (stateOf s h = Some CONNECTING \<or> stateOf s h = Some OPEN \<or> stateOf s h = Some CLOSING)"

text \<open>
  Every such socket is the one in \<open>wsRef\<close>; while a reconnect is pending there is none,
  and there is at most one reconnect pending, a timeout; before the effect has run there
  are neither sockets nor timers.
\<close>

definition single :: "hook \<Rightarrow> bool" where
  "single s =
     ((\<forall>h. unclosedAt s h \<longrightarrow> wsRef s = Some h) \<and>
      (pendingOf Reconnect s \<noteq> [] \<longrightarrow> (\<forall>h. \<not> unclosedAt s h)) \<and>
      length (pendingOf Reconnect s) \<le> 1 \<and>
      (\<forall>x \<in> set (pendingOf Reconnect s). period x = None) \<and>
      (phase s = Unattached \<longrightarrow> conns s = [] \<and> timers s = []))"

subsection \<open>Timers\<close>

text \<open>Pending timers have different ids, all of them handed out, and none is overdue.\<close>

definition timersOk :: "hook \<Rightarrow> bool" where
  "timersOk s =
     (distinct (map ident (timers s)) \<and>
      (\<forall>x \<in> set (timers s). ident x \<le> timerSeq s \<and> now s \<le> due x))"

text \<open>
  What one event does to the timers: it clears some and starts new ones, with new ids;
  or one interval that was due is due again a period later; or time passes, up to the
  next timer at most.
\<close>

definition grows :: "hook \<Rightarrow> hook \<Rightarrow> bool" where
  "grows s s' =
     (timerSeq s \<le> timerSeq s' \<and> now s' = now s \<and>
      (\<exists>Q new. timers s' = filter Q (timers s) @ new \<and> distinct (map ident new) \<and>
         (\<forall>y \<in> set new. timerSeq s < ident y \<and> ident y \<le> timerSeq s' \<and> now s \<le> due y)))"

definition rearmed :: "hook \<Rightarrow> hook \<Rightarrow> bool" where
  "rearmed s s' =
     (\<exists>x p. x \<in> set (timers s) \<and> period x = Some p \<and> due x \<le> now s \<and>
        timers s' = map (\<lambda>y. if ident y = ident x then y\<lparr>due := due y + p\<rparr> else y) (timers s) \<and>
        timerSeq s' = timerSeq s \<and> now s' = now s)"

definition elapsed :: "hook \<Rightarrow> hook \<Rightarrow> bool" where
  "elapsed s s' =
     (\<exists>d. timers s' = timers s \<and> timerSeq s' = timerSeq s \<and> now s' = now s + d \<and>
        (\<forall>x \<in> set (timers s). now s + d \<le> due x))"

text \<open>The id of timer \<open>x\<close> was handed out, and no other pending timer has it.\<close>

definition pinned :: "timer \<Rightarrow> hook \<Rightarrow> bool" where
  "pinned x s = (ident x \<le> timerSeq s \<and> (\<forall>y \<in> set (timers s). ident y = ident x \<longrightarrow> y = x))"

subsection \<open>The coalescer\<close>

text \<open>
  While requests arrive: the keys \<open>ks\<close> are pending, nothing waits for an animation
  frame, the log of invalidations is \<open>log\<close>, and the flush timer in
  \<open>invalidationTimeoutRef\<close>, if there is one, is the only one.
\<close>

definition coalescing :: "hook \<Rightarrow> string list \<Rightarrow> string list \<Rightarrow> bool" where
  "coalescing s ks log =
     (pendingInvalidations s = ks \<and> distinct ks \<and> frames s = [] \<and> invalidated s = log \<and>
      list_all (\<lambda>x. ident x \<le> timerSeq s) (timers s) \<and>
      (case invalidationTimeoutRef s of
         None \<Rightarrow> pendingOf Flush s = []
       | Some t \<Rightarrow> \<exists>d. pendingOf Flush s = [\<lparr>ident = t, due = d, period = None, callback = Flush\<rparr>]))"

text \<open>The timer that a request has just started.\<close>

definition flushTimer :: "hook \<Rightarrow> timer" where
  "flushTimer s = \<lparr>ident = timerSeq s, due = now s + 100, period = None, callback = Flush\<rparr>"

subsection \<open>The keepalive interval\<close>

text \<open>
  A pending ping timer is the interval recorded in its socket's \<open>pingInterval\<close>, has
  period 30000 and is due within that time.
\<close>

definition pingTimers :: "hook \<Rightarrow> bool" where
  "pingTimers s =
     (\<forall>x \<in> set (timers s). \<forall>h. callback x = Ping h \<longrightarrow>
        getPingInterval s h = Some (ident x) \<and> period x = Some 30000 \<and> due x \<le> now s + 30000)"

text \<open>
  An interval recorded in \<open>pingInterval\<close> is pending; its socket is open or closing, and
  the connected flag is true.
\<close>

definition pingVars :: "hook \<Rightarrow> bool" where
  "pingVars s =
     (\<forall>h t. getPingInterval s h = Some t \<longrightarrow>
        (\<exists>x \<in> set (timers s). ident x = t \<and> callback x = Ping h) \<and>
        (stateOf s h = Some OPEN \<or> stateOf s h = Some CLOSING) \<and> isConnected s)"

text \<open>An open socket has an interval, and so has some socket while the flag is true.\<close>

definition pingOpen :: "hook \<Rightarrow> bool" where
  "pingOpen s =
     ((\<forall>h. stateOf s h = Some OPEN \<longrightarrow> getPingInterval s h \<noteq> None) \<and>
      (isConnected s \<longrightarrow> (\<exists>h. getPingInterval s h \<noteq> None)))"

text \<open>
  The ids in the two timer refs were handed out, and a pending timer with such an id is
  a reconnect, respectively a flush: clearing them clears no other timer.
\<close>

definition refsOk :: "hook \<Rightarrow> bool" where
  "refsOk s =
     ((\<forall>t. reconnectTimeoutRef s = Some t \<longrightarrow>
         t \<le> timerSeq s \<and> (\<forall>x \<in> set (timers s). ident x = t \<longrightarrow> callback x = Reconnect)) \<and>
      (\<forall>t. invalidationTimeoutRef s = Some t \<longrightarrow>
         t \<le> timerSeq s \<and> (\<forall>x \<in> set (timers s). ident x = t \<longrightarrow> callback x = Flush)))"

definition keepalive :: "hook \<Rightarrow> bool" where
  "keepalive s = (pingTimers s \<and> pingVars s \<and> pingOpen s \<and> refsOk s)"

section \<open>States of some runs\<close>

text \<open>After the effect has run; after the socket has opened.\<close>

definition attached :: hook where
  "attached = initial\<lparr>wsRef := Some 0, phase := Attached,
     conns := [\<lparr>readyState = CONNECTING, pingInterval = None\<rparr>]\<rparr>"

definition opened :: hook where
  "opened = attached\<lparr>isConnected := True, timerSeq := 1,
     conns := [\<lparr>readyState = OPEN, pingInterval = Some 1\<rparr>],
     timers := [\<lparr>ident = 1, due = 30000, period = Some 30000, callback = Ping 0\<rparr>]\<rparr>"

text \<open>
  From the open socket: after an error event; after the close event, after 3000 ms
  more, and after the reconnect timer has run.
\<close>

definition errored :: hook where
  "errored = opened\<lparr>conns := [\<lparr>readyState = CLOSING, pingInterval = Some 1\<rparr>]\<rparr>"

definition closed :: hook where
  "closed = opened\<lparr>isConnected := False, wsRef := None, timerSeq := 2,
     reconnectTimeoutRef := Some 2,
     conns := [\<lparr>readyState = CLOSED, pingInterval = None\<rparr>],
     timers := [\<lparr>ident = 2, due = 3000, period = None, callback = Reconnect\<rparr>]\<rparr>"

definition waiting :: hook where
  "waiting = closed\<lparr>now := 3000\<rparr>"

definition reconnecting :: hook where
  "reconnecting = waiting\<lparr>wsRef := Some 1, timers := [],
     conns := [\<lparr>readyState = CLOSED, pingInterval = None\<rparr>,
               \<lparr>readyState = CONNECTING, pingInterval = None\<rparr>]\<rparr>"

text \<open>
  From the open socket: after two \<open>archive_created\<close> messages 50 ms apart, which request
  \<open>archives\<close> and \<open>archiveStats\<close> twice.
\<close>

definition bursted :: hook where
  "bursted = opened\<lparr>pendingInvalidations := [''archives'', ''archiveStats''],
     invalidationTimeoutRef := Some 5, timerSeq := 5, now := 50,
     timers := [\<lparr>ident = 1, due = 30000, period = Some 30000, callback = Ping 0\<rparr>,
                \<lparr>ident = 5, due = 150, period = None, callback = Flush\<rparr>]\<rparr>"

text \<open>
  From the open socket: after the first tick of the keepalive interval; after a cleanup
  29999 ms after the socket opened, and after the tick that follows it.
\<close>

definition pinged :: hook where
  "pinged = opened\<lparr>now := 30000, sent := [(0, pingFrame)],
     timers := [\<lparr>ident = 1, due = 60000, period = Some 30000, callback = Ping 0\<rparr>]\<rparr>"

definition detached :: hook where
  "detached = opened\<lparr>now := 29999, phase := Detached,
     conns := [\<lparr>readyState = CLOSING, pingInterval = Some 1\<rparr>]\<rparr>"

definition ticked :: hook where
  "ticked = detached\<lparr>now := 30000,
     timers := [\<lparr>ident = 1, due = 60000, period = Some 30000, callback = Ping 0\<rparr>]\<rparr>"

section \<open>Lemmas\<close>

subsection \<open>stateOf under the operations\<close>

lemma stateOf_valid: "stateOf s h = Some r \<Longrightarrow> h < length (conns s)"
  by (simp add: stateOf_def split: if_splits)

lemma stateOf_no_conns: "conns s = [] \<Longrightarrow> stateOf s h = None"
  by (simp add: stateOf_def)

lemma stateOf_setReadyState:
  "stateOf (setReadyState h r s) h' = (if h' = h \<and> h < length (conns s) then Some r else stateOf s h')"
  by (simp add: stateOf_def setReadyState_def)

lemma stateOf_update [simp]:
  "stateOf (s\<lparr>wsRef := w\<rparr>) = stateOf s"
  "stateOf (s\<lparr>timers := ts\<rparr>) = stateOf s"
  "stateOf (s\<lparr>timerSeq := n\<rparr>) = stateOf s"
  "stateOf (s\<lparr>isConnected := b\<rparr>) = stateOf s"
  "stateOf (s\<lparr>reconnectTimeoutRef := r\<rparr>) = stateOf s"
  "stateOf (s\<lparr>invalidationTimeoutRef := r\<rparr>) = stateOf s"
  "stateOf (s\<lparr>pendingInvalidations := ks\<rparr>) = stateOf s"
  "stateOf (s\<lparr>frames := fs\<rparr>) = stateOf s"
  "stateOf (s\<lparr>queryData := q\<rparr>) = stateOf s"
  "stateOf (s\<lparr>invalidated := ks\<rparr>) = stateOf s"
  "stateOf (s\<lparr>sent := xs\<rparr>) = stateOf s"
  "stateOf (s\<lparr>now := n\<rparr>) = stateOf s"
  "stateOf (s\<lparr>phase := p\<rparr>) = stateOf s"
  by (simp_all add: stateOf_def fun_eq_iff)

lemma stateOf_setPingInterval [simp]: "stateOf (setPingInterval h v s) = stateOf s"
  by (auto simp: stateOf_def setPingInterval_def fun_eq_iff nth_list_update)

lemma stateOf_ws_close:
  "stateOf (ws_close h s) h' =
     (if h' = h \<and> (stateOf s h = Some CONNECTING \<or> stateOf s h = Some OPEN) then Some CLOSING
      else stateOf s h')"
  by (auto simp: ws_close_def stateOf_setReadyState dest: stateOf_valid)

lemma stateOf_clearTimeout [simp]: "stateOf (clearTimeout t s) = stateOf s"
  by (simp add: clearTimeout_def)

lemma stateOf_connect:
  "stateOf (connect s) h =
     (if (\<exists>w. wsRef s = Some w \<and> stateOf s w = Some OPEN) then stateOf s h
      else if h = length (conns s) then Some CONNECTING else stateOf s h)"
  by (auto simp: connect_def newWebSocket_def stateOf_def nth_append split: option.splits)

lemma stateOf_onopen [simp]: "stateOf (onopen h s) = stateOf s"
  by (simp add: onopen_def setInterval_def Let_def)

lemma stateOf_onclose [simp]: "stateOf (onclose h s) = stateOf s"
  by (simp add: onclose_def setTimeout_def Let_def clearInterval_def split: option.splits)

lemma stateOf_debouncedInvalidate [simp]: "stateOf (debouncedInvalidate k s) = stateOf s"
  by (simp add: debouncedInvalidate_def setTimeout_def Let_def split: option.splits)

lemma stateOf_handleMessage [simp]: "stateOf (handleMessage m s) = stateOf s"
  by (simp add: handleMessage_def setQueryData_def split: option.splits)

lemma stateOf_flush [simp]: "stateOf (flush s) = stateOf s"
  by (simp add: flush_def Let_def)

lemma stateOf_expire [simp]: "stateOf (expire x s) = stateOf s"
  by (simp add: expire_def split: option.splits)

lemma stateOf_effect_cleanup:
  "stateOf (effect_cleanup s) h =
     (if wsRef s = Some h \<and> (stateOf s h = Some CONNECTING \<or> stateOf s h = Some OPEN)
      then Some CLOSING else stateOf s h)"
  by (auto simp: effect_cleanup_def Let_def stateOf_ws_close clearTimeout_def split: option.splits)

lemma pingTick_cases:
  "pingTick h s = Inr (if stateOf s h = Some OPEN then s\<lparr>sent := sent s @ [(h, pingFrame)]\<rparr> else s)"
  by (simp add: pingTick_def ws_send_def)

lemma sendMessage_cases:
  "sendMessage m s =
     Inr (case wsRef s of None \<Rightarrow> s
          | Some h \<Rightarrow> if stateOf s h = Some OPEN then s\<lparr>sent := sent s @ [(h, m)]\<rparr> else s)"
  by (simp add: sendMessage_def ws_send_def split: option.splits)

lemma onmessage_cases:
  "onmessage f s = Inr (case f of Undecodable \<Rightarrow> s | Decoded m \<Rightarrow> handleMessage m s)"
  by (simp add: onmessage_def JSON_parse_def split: frame.splits)

subsection \<open>timers under the operations\<close>

lemma conn_ops_frame [simp]:
  "timerSeq (setReadyState h r s) = timerSeq s"
  "now (setReadyState h r s) = now s"
  "timerSeq (setPingInterval h v s) = timerSeq s"
  "now (setPingInterval h v s) = now s"
  "reconnectTimeoutRef (setReadyState h r s) = reconnectTimeoutRef s"
  "reconnectTimeoutRef (setPingInterval h v s) = reconnectTimeoutRef s"
  "invalidationTimeoutRef (setReadyState h r s) = invalidationTimeoutRef s"
  "invalidationTimeoutRef (setPingInterval h v s) = invalidationTimeoutRef s"
  "isConnected (setReadyState h r s) = isConnected s"
  "isConnected (setPingInterval h v s) = isConnected s"
  by (simp_all add: setReadyState_def setPingInterval_def)

lemma timers_simple [simp]:
  "timers (setReadyState h r s) = timers s"
  "timers (setPingInterval h v s) = timers s"
  "timers (ws_close h s) = timers s"
  "timers (connect s) = timers s"
  "timers (flush s) = timers s"
  by (simp_all add: setReadyState_def setPingInterval_def ws_close_def connect_def
        newWebSocket_def flush_def Let_def split: option.splits)

lemma timers_clearTimeout: "timers (clearTimeout t s) = filter (\<lambda>x. ident x \<noteq> t) (timers s)"
  by (simp add: clearTimeout_def)

lemma timers_onopen:
  "timers (onopen h s) =
     timers s @ [\<lparr>ident = Suc (timerSeq s), due = now s + 30000, period = Some 30000, callback = Ping h\<rparr>]"
  by (simp add: onopen_def setInterval_def Let_def)

lemma timers_onclose:
  "timers (onclose h s) =
     (case getPingInterval s h of None \<Rightarrow> timers s | Some t \<Rightarrow> filter (\<lambda>x. ident x \<noteq> t) (timers s))
       @ [\<lparr>ident = Suc (timerSeq s), due = now s + 3000, period = None, callback = Reconnect\<rparr>]"
  by (simp add: onclose_def setTimeout_def Let_def clearInterval_def clearTimeout_def
        split: option.splits)

lemma timers_debouncedInvalidate:
  "timers (debouncedInvalidate k s) =
     (case invalidationTimeoutRef s of None \<Rightarrow> timers s | Some t \<Rightarrow> filter (\<lambda>x. ident x \<noteq> t) (timers s))
       @ [\<lparr>ident = Suc (timerSeq s), due = now s + 100, period = None, callback = Flush\<rparr>]"
  by (simp add: debouncedInvalidate_def setTimeout_def Let_def clearTimeout_def split: option.splits)

lemma timers_effect_cleanup:
  "timers (effect_cleanup s) =
     filter (\<lambda>x. invalidationTimeoutRef s \<noteq> Some (ident x))
       (filter (\<lambda>x. reconnectTimeoutRef s \<noteq> Some (ident x)) (timers s))"
  by (auto simp: effect_cleanup_def Let_def clearTimeout_def split: option.splits
        intro!: filter_cong)

lemma timers_expire:
  "timers (expire x s) =
     (case period x of None \<Rightarrow> filter (\<lambda>y. ident y \<noteq> ident x) (timers s)
      | Some p \<Rightarrow> map (\<lambda>y. if ident y = ident x then y\<lparr>due := due y + p\<rparr> else y) (timers s))"
  by (simp add: expire_def split: option.splits)

subsection \<open>the refs and the phase\<close>

lemma wsRef_simple [simp]:
  "wsRef (setReadyState h r s) = wsRef s"
  "wsRef (setPingInterval h v s) = wsRef s"
  "wsRef (ws_close h s) = wsRef s"
  "wsRef (clearTimeout t s) = wsRef s"
  "wsRef (onopen h s) = wsRef s"
  "wsRef (onclose h s) = None"
  "wsRef (debouncedInvalidate k s) = wsRef s"
  "wsRef (handleMessage m s) = wsRef s"
  "wsRef (flush s) = wsRef s"
  "wsRef (expire x s) = wsRef s"
  "wsRef (effect_cleanup s) = wsRef s"
  by (simp_all add: setReadyState_def setPingInterval_def ws_close_def clearTimeout_def
        onopen_def onclose_def debouncedInvalidate_def handleMessage_def setQueryData_def
        flush_def expire_def effect_cleanup_def
        setInterval_def setTimeout_def clearInterval_def Let_def split: option.splits)

lemma wsRef_connect:
  "wsRef (connect s) =
     (if (\<exists>w. wsRef s = Some w \<and> stateOf s w = Some OPEN) then wsRef s
      else Some (length (conns s)))"
  by (auto simp: connect_def newWebSocket_def split: option.splits)

lemma phase_simple [simp]:
  "phase (setReadyState h r s) = phase s"
  "phase (setPingInterval h v s) = phase s"
  "phase (ws_close h s) = phase s"
  "phase (clearTimeout t s) = phase s"
  "phase (connect s) = phase s"
  "phase (onopen h s) = phase s"
  "phase (onclose h s) = phase s"
  "phase (debouncedInvalidate k s) = phase s"
  "phase (handleMessage m s) = phase s"
  "phase (flush s) = phase s"
  "phase (expire x s) = phase s"
  "phase (effect_cleanup s) = phase s"
  by (simp_all add: setReadyState_def setPingInterval_def ws_close_def clearTimeout_def
        connect_def newWebSocket_def
        onopen_def onclose_def debouncedInvalidate_def handleMessage_def setQueryData_def
        flush_def expire_def effect_cleanup_def
        setInterval_def setTimeout_def clearInterval_def Let_def split: option.splits)


subsection \<open>One handle at a time\<close>

lemma filter_conj_le: "length (filter (\<lambda>x. Q x \<and> P x) xs) \<le> length (filter P xs)"
  by (induction xs) auto

lemma pendingOf_filter:
  "timers s' = filter Q (timers s) \<Longrightarrow> pendingOf cb s' = filter Q (pendingOf cb s)"
  by (auto simp: pendingOf_def intro: filter_cong)

lemma pendingOf_same: "timers s' = timers s \<Longrightarrow> pendingOf cb s' = pendingOf cb s"
  by (simp add: pendingOf_def)

lemma single_keep:
  assumes "single s"
    and "\<And>h. unclosedAt s' h = unclosedAt s h"
    and "wsRef s' = wsRef s"
    and len: "length (pendingOf Reconnect s') \<le> length (pendingOf Reconnect s)"
    and per: "\<forall>x \<in> set (pendingOf Reconnect s'). period x = None"
    and "phase s' \<noteq> Unattached"
  shows "single s'"
proof -
  have "length (pendingOf Reconnect s) \<le> 1"
    using assms(1) by (simp add: single_def)
  with len have len1: "length (pendingOf Reconnect s') \<le> 1"
    by (rule order_trans)
  have ne: "pendingOf Reconnect s' \<noteq> [] \<Longrightarrow> pendingOf Reconnect s \<noteq> []"
    using len by auto
  have ws: "\<forall>h. unclosedAt s' h \<longrightarrow> wsRef s' = Some h"
    using assms(1) by (simp add: assms(2,3) single_def)
  have un: "pendingOf Reconnect s' \<noteq> [] \<longrightarrow> (\<forall>h. \<not> unclosedAt s' h)"
    using assms(1) ne by (auto simp: assms(2) single_def)
  show ?thesis
    unfolding single_def using len1 per ws un assms(6) by blast
qed

lemma single_shrink:
  assumes "single s"
    and "\<And>h. unclosedAt s' h = unclosedAt s h"
    and "wsRef s' = wsRef s"
    and "pendingOf Reconnect s' = filter Q (pendingOf Reconnect s)"
    and "phase s' \<noteq> Unattached"
  shows "single s'"
proof (rule single_keep [OF assms(1,2,3)])
  show "length (pendingOf Reconnect s') \<le> length (pendingOf Reconnect s)"
    by (simp add: assms(4))
  show "\<forall>x \<in> set (pendingOf Reconnect s'). period x = None"
    using assms(1) by (auto simp: assms(4) single_def)
qed (rule assms(5))

lemma single_Attach:
  assumes "single s" "phase s = Unattached"
  shows "single (effect_setup (s\<lparr>phase := Attached\<rparr>))"
proof -
  from assms have e: "conns s = []" "timers s = []"
    by (simp_all add: single_def)
  have st: "\<And>h. stateOf s h = None"
    using e by (simp add: stateOf_no_conns)
  show ?thesis
    unfolding single_def effect_setup_def
    by (simp add: unclosedAt_def pendingOf_def stateOf_connect wsRef_connect st e)
qed

lemma single_Detach:
  assumes "single s" "phase s = Attached"
  shows "single (effect_cleanup (s\<lparr>phase := Detached\<rparr>))"
proof (rule single_shrink [OF assms(1)])
  show "unclosedAt (effect_cleanup (s\<lparr>phase := Detached\<rparr>)) h = unclosedAt s h" for h
    by (auto simp: unclosedAt_def stateOf_effect_cleanup)
  show "pendingOf Reconnect (effect_cleanup (s\<lparr>phase := Detached\<rparr>)) =
          filter (\<lambda>x. invalidationTimeoutRef s \<noteq> Some (ident x) \<and> reconnectTimeoutRef s \<noteq> Some (ident x))
            (pendingOf Reconnect s)"
    by (auto simp: pendingOf_def timers_effect_cleanup intro: filter_cong)
qed simp_all

lemma single_OnOpen:
  assumes "single s" "stateOf s h = Some CONNECTING"
  shows "single (onopen h (setReadyState h OPEN s))"
proof (rule single_shrink [OF assms(1), where Q = "\<lambda>x. True"])
  show "unclosedAt (onopen h (setReadyState h OPEN s)) h' = unclosedAt s h'" for h'
    using assms(2) by (auto simp: unclosedAt_def stateOf_setReadyState)
  show "pendingOf Reconnect (onopen h (setReadyState h OPEN s)) =
          filter (\<lambda>x. True) (pendingOf Reconnect s)"
    by (simp add: pendingOf_def timers_onopen)
  show "phase (onopen h (setReadyState h OPEN s)) \<noteq> Unattached"
    using assms by (auto simp: single_def stateOf_no_conns)
qed simp

lemma single_handleMessage:
  assumes "single s" "phase s \<noteq> Unattached"
  shows "single (handleMessage m s)"
proof -
  have d: "single (debouncedInvalidate k t)" if "single t" "phase t \<noteq> Unattached" for k t
  proof (rule single_shrink [OF that(1)])
    show "pendingOf Reconnect (debouncedInvalidate k t) =
            filter (\<lambda>x. invalidationTimeoutRef t \<noteq> Some (ident x)) (pendingOf Reconnect t)"
      by (auto simp: pendingOf_def timers_debouncedInvalidate split: option.splits
            intro: filter_cong)
    show "phase (debouncedInvalidate k t) \<noteq> Unattached"
      using that by simp
  qed (simp_all add: unclosedAt_def)
  have q: "single (setQueryData k u s)" for k u
    using assms(1) by (simp add: single_def setQueryData_def unclosedAt_def pendingOf_def)
  show ?thesis
    using assms q by (auto simp: handleMessage_def intro!: d split: option.splits)
qed

lemma single_OnError:
  assumes "single s" "stateOf s h \<noteq> None"
  shows "single (onerror h s)"
proof (rule single_shrink [OF assms(1), where Q = "\<lambda>x. True"])
  show "unclosedAt (onerror h s) h' = unclosedAt s h'" for h'
    by (auto simp: unclosedAt_def onerror_def stateOf_ws_close)
  show "phase (onerror h s) \<noteq> Unattached"
    using assms by (auto simp: single_def stateOf_no_conns onerror_def)
qed (simp_all add: onerror_def pendingOf_def)

lemma single_OnClose:
  assumes "single s" "stateOf s h \<noteq> None" "stateOf s h \<noteq> Some CLOSED"
  shows "single (onclose h (setReadyState h CLOSED s))"
proof -
  have u: "unclosedAt s h"
    using assms(2,3) by (cases "stateOf s h") (auto simp: unclosedAt_def intro: readyState.exhaust)
  have only: "h' = h" if "unclosedAt s h'" for h'
  proof -
    have "\<forall>k. unclosedAt s k \<longrightarrow> wsRef s = Some k"
      using assms(1) unfolding single_def by blast
    then have "wsRef s = Some h'" and "wsRef s = Some h"
      using that u by blast+
    then have "Some h' = Some h" by (rule trans [OF sym])
    then show ?thesis by (rule option.inject [THEN iffD1])
  qed
  have none: "pendingOf Reconnect s = []"
    using assms(1) u by (auto simp: single_def)
  have ph: "phase s \<noteq> Unattached"
    using assms by (auto simp: single_def stateOf_no_conns)
  have a: "\<not> unclosedAt (onclose h (setReadyState h CLOSED s)) h'" for h'
  proof (cases "h' = h")
    case True
    have "h < length (conns s)"
      using assms(2) by (auto simp: stateOf_def split: if_splits)
    then show ?thesis using True by (simp add: unclosedAt_def stateOf_setReadyState)
  next
    case False
    then have "\<not> unclosedAt s h'" using only [of h'] by blast
    then show ?thesis using False by (simp add: unclosedAt_def stateOf_setReadyState)
  qed
  have b: "pendingOf Reconnect (onclose h (setReadyState h CLOSED s)) =
             [\<lparr>ident = Suc (timerSeq s), due = now s + 3000, period = None, callback = Reconnect\<rparr>]"
    using none
    by (auto simp: pendingOf_def timers_onclose filter_empty_conv split: option.splits)
  show ?thesis
    unfolding single_def using a b ph by simp
qed


lemma filter_callback_rearm:
  "filter (\<lambda>y. callback y = cb) (map (\<lambda>y. if ident y = i then y\<lparr>due := due y + p\<rparr> else y) ts) =
   map (\<lambda>y. if ident y = i then y\<lparr>due := due y + p\<rparr> else y) (filter (\<lambda>y. callback y = cb) ts)"
  by (induction ts) auto

lemma pendingOf_expire:
  "pendingOf cb (expire x s) =
     (case period x of
        None \<Rightarrow> filter (\<lambda>y. ident y \<noteq> ident x) (pendingOf cb s)
      | Some p \<Rightarrow> map (\<lambda>y. if ident y = ident x then y\<lparr>due := due y + p\<rparr> else y) (pendingOf cb s))"
proof (cases "period x")
  case None
  then show ?thesis
    by (auto simp: pendingOf_def timers_expire intro: filter_cong)
next
  case (Some p)
  then show ?thesis
    by (simp add: pendingOf_def timers_expire filter_callback_rearm)
qed

lemma find_ident: "find (\<lambda>x. ident x = t) ts = Some x \<Longrightarrow> x \<in> set ts \<and> ident x = t"
  by (induction ts) (auto split: if_splits)

lemma single_expire:
  assumes "single s" "x \<in> set (timers s)"
  shows "single (expire x s)"
proof (rule single_keep [OF assms(1)])
  show "length (pendingOf Reconnect (expire x s)) \<le> length (pendingOf Reconnect s)"
    by (simp add: pendingOf_expire split: option.splits)
  show "\<forall>y \<in> set (pendingOf Reconnect (expire x s)). period y = None"
    using assms(1) by (auto simp: pendingOf_expire single_def split: option.splits)
  show "phase (expire x s) \<noteq> Unattached"
    using assms by (auto simp: single_def)
qed (simp_all add: unclosedAt_def)

lemma single_reconnect:
  assumes "single s" "x \<in> set (timers s)" "callback x = Reconnect"
  shows "single (connect (expire x s))"
proof -
  have xin: "x \<in> set (pendingOf Reconnect s)"
    using assms(2,3) by (simp add: pendingOf_def)
  then have ne: "pendingOf Reconnect s \<noteq> []" by auto
  have per: "period x = None"
    using assms(1) xin by (simp add: single_def)
  have "length (pendingOf Reconnect s) \<le> 1"
    using assms(1) by (simp add: single_def)
  with xin have one: "pendingOf Reconnect s = [x]"
    by (cases "pendingOf Reconnect s") auto
  have gone: "pendingOf Reconnect (expire x s) = []"
    by (simp add: pendingOf_expire per one)
  have closed: "\<not> unclosedAt s h" for h
    using assms(1) ne by (simp add: single_def)
  have ph: "phase s \<noteq> Unattached"
    using assms(1,2) by (auto simp: single_def)
  have notopen: "\<not> (\<exists>w. wsRef s = Some w \<and> stateOf s w = Some OPEN)"
    using closed by (auto simp: unclosedAt_def)
  have st: "stateOf (connect (expire x s)) h =
              (if h = length (conns (expire x s)) then Some CONNECTING else stateOf s h)" for h
    using notopen by (auto simp: stateOf_connect)
  have ws: "wsRef (connect (expire x s)) = Some (length (conns (expire x s)))"
    using notopen by (auto simp: wsRef_connect)
  have a: "\<forall>h. unclosedAt (connect (expire x s)) h \<longrightarrow> wsRef (connect (expire x s)) = Some h"
    using closed by (auto simp: unclosedAt_def st ws)
  have b: "pendingOf Reconnect (connect (expire x s)) = []"
    using gone by (simp add: pendingOf_def)
  show ?thesis
    unfolding single_def using a b ph by simp
qed

lemma single_fire:
  assumes "single s" "fire e s = Some s'"
  shows "single s'"
proof (cases e)
  case Attach
  then show ?thesis
    using assms by (auto simp: fire_def single_Attach split: if_splits)
next
  case Detach
  then show ?thesis
    using assms by (auto simp: fire_def single_Detach split: if_splits)
next
  case (OnOpen h)
  then show ?thesis
    using assms by (auto simp: fire_def single_OnOpen split: if_splits)
next
  case (OnMessage h f)
  then have "stateOf s h = Some OPEN" and s': "s' = (case f of Undecodable \<Rightarrow> s | Decoded m \<Rightarrow> handleMessage m s)"
    using assms(2) by (auto simp: fire_def onmessage_cases split: if_splits)
  then have "phase s \<noteq> Unattached"
    using assms(1) by (auto simp: single_def stateOf_no_conns)
  then show ?thesis
    using assms(1) by (simp add: s' single_handleMessage split: frame.splits)
next
  case (OnError h)
  then show ?thesis
    using assms by (auto simp: fire_def single_OnError split: if_splits)
next
  case (OnClose h)
  then show ?thesis
    using assms by (auto simp: fire_def single_OnClose split: if_splits)
next
  case (TimerDue t)
  then obtain x where x: "find (\<lambda>x. ident x = t) (timers s) = Some x"
    and r: "runTask (callback x) (expire x s) = Inr s'"
    using assms(2) by (auto simp: fire_def split: option.splits if_splits sum.splits)
  have xin: "x \<in> set (timers s)"
    using find_ident [OF x] by simp
  show ?thesis
  proof (cases "callback x")
    case Reconnect
    then show ?thesis
      using r single_reconnect [OF assms(1) xin] by (simp add: runTask_def)
  next
    case Flush
    then have "s' = flush (expire x s)"
      using r by (simp add: runTask_def)
    moreover have "single (flush (expire x s)) = single (expire x s)"
      by (simp add: single_def unclosedAt_def pendingOf_def) (simp add: flush_def Let_def)
    ultimately show ?thesis
      using single_expire [OF assms(1) xin] by simp
  next
    case (Ping h)
    then have "s' = expire x s \<or> s' = (expire x s)\<lparr>sent := sent (expire x s) @ [(h, pingFrame)]\<rparr>"
      using r by (auto simp: runTask_def pingTick_cases split: if_splits)
    moreover have "single (t\<lparr>sent := v\<rparr>) = single t" for t v
      by (simp add: single_def unclosedAt_def pendingOf_def)
    ultimately show ?thesis
      using single_expire [OF assms(1) xin] by auto
  qed
next
  case AnimationFrame
  have inv: "invalidateAll ks t = t\<lparr>invalidated := invalidated t @ ks\<rparr>" for ks t
    by (simp add: invalidateAll_def)
  have "single (fold invalidateAll fs t) = single t" for fs t
    by (induction fs arbitrary: t) (simp_all add: inv single_def unclosedAt_def pendingOf_def)
  moreover have "single (s\<lparr>frames := []\<rparr>) = single s"
    by (simp add: single_def unclosedAt_def pendingOf_def)
  ultimately show ?thesis
    using assms AnimationFrame by (auto simp: fire_def)
next
  case (Elapse d)
  moreover have "single (s\<lparr>now := n\<rparr>) = single s" for n
    by (simp add: single_def unclosedAt_def pendingOf_def)
  ultimately show ?thesis
    using assms by (auto simp: fire_def split: if_splits)
next
  case (Send m)
  moreover have "single (t\<lparr>sent := v\<rparr>) = single t" for t v
    by (simp add: single_def unclosedAt_def pendingOf_def)
  ultimately show ?thesis
    using assms by (auto simp: fire_def sendMessage_cases split: option.splits if_splits)
qed

lemma single_initial: "single initial"
  by (simp add: single_def initial_def unclosedAt_def stateOf_def pendingOf_def)

lemma single_run: "single s \<Longrightarrow> run es s = Some s' \<Longrightarrow> single s'"
proof (induction es arbitrary: s)
  case Nil
  then show ?case by simp
next
  case (Cons e es)
  then show ?case
    by (auto split: option.splits dest: single_fire)
qed

subsection \<open>Timers under the events\<close>

lemma seq_now_simple [simp]:
  "timerSeq (ws_close h s) = timerSeq s"
  "now (ws_close h s) = now s"
  "timerSeq (clearTimeout t s) = timerSeq s"
  "now (clearTimeout t s) = now s"
  "timerSeq (connect s) = timerSeq s"
  "now (connect s) = now s"
  "timerSeq (onopen h s) = Suc (timerSeq s)"
  "now (onopen h s) = now s"
  "timerSeq (onclose h s) = Suc (timerSeq s)"
  "now (onclose h s) = now s"
  "timerSeq (debouncedInvalidate k s) = Suc (timerSeq s)"
  "now (debouncedInvalidate k s) = now s"
  "timerSeq (flush s) = timerSeq s"
  "now (flush s) = now s"
  "timerSeq (expire x s) = timerSeq s"
  "now (expire x s) = now s"
  "timerSeq (effect_cleanup s) = timerSeq s"
  "now (effect_cleanup s) = now s"
  by (simp_all add: ws_close_def clearTimeout_def connect_def newWebSocket_def
        onopen_def onclose_def debouncedInvalidate_def
        flush_def expire_def effect_cleanup_def
        setInterval_def setTimeout_def clearInterval_def Let_def split: option.splits)

lemma growsI:
  assumes "timers s' = filter Q (timers s) @ new" "now s' = now s" "timerSeq s \<le> timerSeq s'"
    "distinct (map ident new)"
    "\<And>y. y \<in> set new \<Longrightarrow> timerSeq s < ident y \<and> ident y \<le> timerSeq s' \<and> now s \<le> due y"
  shows "grows s s'"
  unfolding grows_def using assms by blast

lemma grows_same:
  "timers s' = timers s \<Longrightarrow> now s' = now s \<Longrightarrow> timerSeq s' = timerSeq s \<Longrightarrow> grows s s'"
  by (rule growsI [where Q = "\<lambda>x. True" and new = "[]"]) simp_all

lemma grows_trans:
  assumes "grows s s1" "grows s1 s2"
  shows "grows s s2"
proof -
  from assms(1) obtain Q1 new1 where 1: "timers s1 = filter Q1 (timers s) @ new1"
    "distinct (map ident new1)" "timerSeq s \<le> timerSeq s1" "now s1 = now s"
    "\<forall>y \<in> set new1. timerSeq s < ident y \<and> ident y \<le> timerSeq s1 \<and> now s \<le> due y"
    unfolding grows_def by blast
  from assms(2) obtain Q2 new2 where 2: "timers s2 = filter Q2 (timers s1) @ new2"
    "distinct (map ident new2)" "timerSeq s1 \<le> timerSeq s2" "now s2 = now s1"
    "\<forall>y \<in> set new2. timerSeq s1 < ident y \<and> ident y \<le> timerSeq s2 \<and> now s1 \<le> due y"
    unfolding grows_def by blast
  show ?thesis
  proof (rule growsI [where Q = "\<lambda>x. Q1 x \<and> Q2 x" and new = "filter Q2 new1 @ new2"])
    show "timers s2 = filter (\<lambda>x. Q1 x \<and> Q2 x) (timers s) @ filter Q2 new1 @ new2"
      by (simp add: 1(1) 2(1))
    show "distinct (map ident (filter Q2 new1 @ new2))"
      using 1(2,5) 2(2,5) by (fastforce simp: distinct_map_filter)
    show "timerSeq s < ident y \<and> ident y \<le> timerSeq s2 \<and> now s \<le> due y"
      if "y \<in> set (filter Q2 new1 @ new2)" for y
      using that 1(3,4,5) 2(3,5) by fastforce
  qed (simp_all add: 1 2 order_trans [OF 1(3) 2(3)])
qed

lemma grows_clearTimeout: "grows s (clearTimeout t s)"
  by (rule growsI [where Q = "\<lambda>x. ident x \<noteq> t" and new = "[]"])
     (simp_all add: timers_clearTimeout)

lemma grows_onopen: "grows s (onopen h s)"
  by (rule growsI [where Q = "\<lambda>x. True"]) (auto simp: timers_onopen)

lemma grows_onclose: "grows s (onclose h s)"
  by (rule growsI [where Q = "\<lambda>x. getPingInterval s h \<noteq> Some (ident x)"])
     (auto simp: timers_onclose split: option.splits intro: filter_cong)

lemma grows_debouncedInvalidate: "grows s (debouncedInvalidate k s)"
  by (rule growsI [where Q = "\<lambda>x. invalidationTimeoutRef s \<noteq> Some (ident x)"])
     (auto simp: timers_debouncedInvalidate split: option.splits intro: filter_cong)

lemma grows_handleMessage: "grows s (handleMessage m s)"
  by (auto simp: handleMessage_def setQueryData_def split: option.splits
        intro: grows_same grows_debouncedInvalidate
               grows_trans [OF grows_debouncedInvalidate grows_debouncedInvalidate])

lemma grows_effect_cleanup: "grows s (effect_cleanup s)"
  by (rule growsI [where new = "[]" and
        Q = "\<lambda>x. invalidationTimeoutRef s \<noteq> Some (ident x) \<and> reconnectTimeoutRef s \<noteq> Some (ident x)"])
     (auto simp: timers_effect_cleanup intro: filter_cong)

lemma grows_setReadyState: "grows s (setReadyState h r s)"
  by (simp add: grows_same)

lemma grows_ws_close: "grows s (ws_close h s)"
  by (simp add: grows_same)

lemma grows_connect: "grows s (connect s)"
  by (simp add: grows_same)

lemma grows_cong:
  "grows s1 s' \<Longrightarrow> timers s = timers s1 \<Longrightarrow> now s = now s1 \<Longrightarrow> timerSeq s = timerSeq s1 \<Longrightarrow> grows s s'"
  by (simp add: grows_def)

lemma fire_timers:
  assumes "fire e s = Some s'"
  shows "grows s s' \<or> rearmed s s' \<or> elapsed s s'"
proof (cases e)
  case Attach
  then have "s' = connect (s\<lparr>phase := Attached\<rparr>)"
    using assms by (auto simp: fire_def effect_setup_def split: if_splits)
  then show ?thesis
    by (auto intro!: grows_cong [OF grows_connect])
next
  case Detach
  then have "s' = effect_cleanup (s\<lparr>phase := Detached\<rparr>)"
    using assms by (auto simp: fire_def split: if_splits)
  then show ?thesis
    by (auto intro!: grows_cong [OF grows_effect_cleanup])
next
  case (OnOpen h)
  then have "s' = onopen h (setReadyState h OPEN s)"
    using assms by (auto simp: fire_def split: if_splits)
  then show ?thesis
    by (auto intro!: grows_cong [OF grows_onopen])
next
  case (OnMessage h f)
  then have "s' = (case f of Undecodable \<Rightarrow> s | Decoded m \<Rightarrow> handleMessage m s)"
    using assms by (auto simp: fire_def onmessage_cases split: if_splits)
  then show ?thesis
    by (auto intro: grows_same grows_handleMessage split: frame.splits)
next
  case (OnError h)
  then have "s' = ws_close h s"
    using assms by (auto simp: fire_def onerror_def split: if_splits)
  then show ?thesis
    by (simp add: grows_ws_close)
next
  case (OnClose h)
  then have "s' = onclose h (setReadyState h CLOSED s)"
    using assms by (auto simp: fire_def split: if_splits)
  then show ?thesis
    by (auto intro!: grows_cong [OF grows_onclose])
next
  case (TimerDue t)
  then obtain x where x: "find (\<lambda>x. ident x = t) (timers s) = Some x" "due x \<le> now s"
    and r: "runTask (callback x) (expire x s) = Inr s'"
    using assms by (auto simp: fire_def split: option.splits if_splits sum.splits)
  have xin: "x \<in> set (timers s)"
    using find_ident [OF x(1)] by simp
  have same: "timers s' = timers (expire x s)" "timerSeq s' = timerSeq s" "now s' = now s"
    using r by (auto simp: runTask_def pingTick_cases split: task.splits if_splits)
  show ?thesis
  proof (cases "period x")
    case None
    have "grows s s'"
      by (rule growsI [where Q = "\<lambda>y. ident y \<noteq> ident x" and new = "[]"])
         (simp_all add: same timers_expire None)
    then show ?thesis by simp
  next
    case (Some p)
    have "rearmed s s'"
      unfolding rearmed_def using xin x(2) Some same by (auto simp: timers_expire)
    then show ?thesis by simp
  qed
next
  case AnimationFrame
  have inv: "invalidateAll ks t = t\<lparr>invalidated := invalidated t @ ks\<rparr>" for ks t
    by (simp add: invalidateAll_def)
  have "timers (fold invalidateAll fs t) = timers t \<and> now (fold invalidateAll fs t) = now t \<and>
        timerSeq (fold invalidateAll fs t) = timerSeq t" for fs t
    by (induction fs arbitrary: t) (simp_all add: inv)
  then show ?thesis
    using assms AnimationFrame by (auto simp: fire_def intro!: grows_same)
next
  case (Elapse d)
  then have "elapsed s s'"
    using assms by (auto simp: fire_def elapsed_def list_all_iff split: if_splits)
  then show ?thesis by simp
next
  case (Send m)
  then show ?thesis
    using assms by (auto simp: fire_def sendMessage_cases intro!: grows_same split: option.splits if_splits)
qed

lemma timersOk_grows:
  assumes "timersOk s" "grows s s'"
  shows "timersOk s'"
proof -
  from assms(2) obtain Q new where g: "timers s' = filter Q (timers s) @ new" "distinct (map ident new)"
    "timerSeq s \<le> timerSeq s'" "now s' = now s"
    "\<forall>y \<in> set new. timerSeq s < ident y \<and> ident y \<le> timerSeq s' \<and> now s \<le> due y"
    unfolding grows_def by blast
  show ?thesis
    unfolding timersOk_def using assms(1) g(2,3,5)
    by (fastforce simp: g(1,4) timersOk_def distinct_map_filter)
qed

lemma timersOk_fire:
  assumes "timersOk s" "fire e s = Some s'"
  shows "timersOk s'"
proof -
  consider "grows s s'" | "rearmed s s'" | "elapsed s s'"
    using fire_timers [OF assms(2)] by blast
  then show ?thesis
  proof cases
    case 1
    with assms(1) show ?thesis by (rule timersOk_grows)
  next
    case 2
    then obtain x :: timer and p where r: "timers s' = map (\<lambda>y. if ident y = ident x then y\<lparr>due := due y + p\<rparr> else y) (timers s)"
      "timerSeq s' = timerSeq s" "now s' = now s"
      unfolding rearmed_def by blast
    have "ident \<circ> (\<lambda>y. if ident y = ident x then y\<lparr>due := due y + p\<rparr> else y) = ident"
      by (simp add: fun_eq_iff)
    then have ids: "map ident (timers s') = map ident (timers s)"
      by (simp add: r(1))
    have "\<forall>y \<in> set (timers s'). ident y \<le> timerSeq s' \<and> now s' \<le> due y"
      using assms(1) by (auto simp: r timersOk_def)
    then show ?thesis
      unfolding timersOk_def using assms(1) ids
      by (simp add: timersOk_def)
  next
    case 3
    then show ?thesis
      using assms(1) by (auto simp: elapsed_def timersOk_def)
  qed
qed

lemma timersOk_initial: "timersOk initial"
  by (simp add: timersOk_def initial_def)

lemma timersOk_run: "timersOk s \<Longrightarrow> run es s = Some s' \<Longrightarrow> timersOk s'"
proof (induction es arbitrary: s)
  case Nil
  then show ?case by simp
next
  case (Cons e es)
  then show ?case
    by (auto split: option.splits dest: timersOk_fire)
qed

subsection \<open>The reconnect timer\<close>

lemma pinned_fire:
  assumes "pinned x s" "period x = None" "fire e s = Some s'"
  shows "pinned x s'"
proof -
  consider "grows s s'" | "rearmed s s'" | "elapsed s s'"
    using fire_timers [OF assms(3)] by blast
  then show ?thesis
  proof cases
    case 1
    then obtain Q new where g: "timers s' = filter Q (timers s) @ new"
      "timerSeq s \<le> timerSeq s'"
      "\<forall>y \<in> set new. timerSeq s < ident y"
      unfolding grows_def by blast
    show ?thesis
      unfolding pinned_def using assms(1) g(2,3)
      by (fastforce simp: g(1) pinned_def)
  next
    case 2
    then obtain z :: timer and p where r: "z \<in> set (timers s)" "period z = Some p"
      "timers s' = map (\<lambda>y. if ident y = ident z then y\<lparr>due := due y + p\<rparr> else y) (timers s)"
      "timerSeq s' = timerSeq s"
      unfolding rearmed_def by blast
    have nz: "ident z \<noteq> ident x"
      using assms(1,2) r(1,2) by (auto simp: pinned_def)
    show ?thesis
      unfolding pinned_def using assms(1) nz
      by (auto simp: r(3,4) pinned_def)
  next
    case 3
    then show ?thesis
      using assms(1) by (auto simp: elapsed_def pinned_def)
  qed
qed

lemma pinned_run: "pinned x s \<Longrightarrow> period x = None \<Longrightarrow> run es s = Some s' \<Longrightarrow> pinned x s'"
proof (induction es arbitrary: s)
  case Nil
  then show ?case by simp
next
  case (Cons e es)
  then show ?case
    by (auto split: option.splits dest: pinned_fire)
qed

lemma run_append: "run (es @ es') s = (case run es s of None \<Rightarrow> None | Some s1 \<Rightarrow> run es' s1)"
  by (induction es arbitrary: s) (auto split: option.splits)

lemma run_snoc: "run es s = Some s1 \<Longrightarrow> fire e s1 = Some s2 \<Longrightarrow> run (es @ [e]) s = Some s2"
  by (simp add: run_append)

lemma reachable_single: "run es initial = Some s \<Longrightarrow> single s"
  by (rule single_run [OF single_initial])

lemma reachable_timersOk: "run es initial = Some s \<Longrightarrow> timersOk s"
  by (rule timersOk_run [OF timersOk_initial])

lemma single_unique: "single s \<Longrightarrow> unclosedAt s h1 \<Longrightarrow> unclosedAt s h2 \<Longrightarrow> h1 = h2"
proof -
  assume a: "single s" "unclosedAt s h1" "unclosedAt s h2"
  then have "\<forall>k. unclosedAt s k \<longrightarrow> wsRef s = Some k"
    unfolding single_def by blast
  then have "wsRef s = Some h1" and "wsRef s = Some h2"
    using a(2,3) by blast+
  then have "Some h1 = Some h2" by (rule trans [OF sym])
  then show ?thesis by (rule option.inject [THEN iffD1])
qed

lemma liveAt_unclosedAt: "liveAt s h \<Longrightarrow> unclosedAt s h"
  by (auto simp: liveAt_def unclosedAt_def)

lemma onclose_schedules:
  assumes "single s" "timersOk s" "fire (OnClose h) s = Some s'"
  shows "pendingOf Reconnect s' =
           [\<lparr>ident = timerSeq s', due = now s + 3000, period = None, callback = Reconnect\<rparr>]"
    and "reconnectTimeoutRef s' = Some (timerSeq s')"
    and "pinned \<lparr>ident = timerSeq s', due = now s + 3000, period = None, callback = Reconnect\<rparr> s'"
    and "now s' = now s"
proof -
  from assms(3) have en: "stateOf s h \<noteq> None" "stateOf s h \<noteq> Some CLOSED"
    and s': "s' = onclose h (setReadyState h CLOSED s)"
    by (auto simp: fire_def split: if_splits)
  have u: "unclosedAt s h"
    using en by (cases "stateOf s h") (auto simp: unclosedAt_def intro: readyState.exhaust)
  have none: "pendingOf Reconnect s = []"
    using assms(1) u by (auto simp: single_def)
  show "pendingOf Reconnect s' =
           [\<lparr>ident = timerSeq s', due = now s + 3000, period = None, callback = Reconnect\<rparr>]"
    using none
    by (auto simp: s' pendingOf_def timers_onclose filter_empty_conv split: option.splits)
  show "reconnectTimeoutRef s' = Some (timerSeq s')"
    by (simp add: s' onclose_def setTimeout_def Let_def clearInterval_def split: option.splits)
  show "pinned \<lparr>ident = timerSeq s', due = now s + 3000, period = None, callback = Reconnect\<rparr> s'"
    using assms(2)
    by (fastforce simp: s' pinned_def timersOk_def timers_onclose split: option.splits)
  show "now s' = now s"
    by (simp add: s')
qed

lemma reconnect_fires:
  assumes "single s" "timersOk s" "pinned x s" "callback x = Reconnect"
    "fire (TimerDue (ident x)) s = Some s'"
  shows "now s = due x"
    and "conns s' = conns s @ [\<lparr>readyState = CONNECTING, pingInterval = None\<rparr>]"
    and "wsRef s' = Some (length (conns s))"
proof -
  from assms(5) obtain y where y: "find (\<lambda>z. ident z = ident x) (timers s) = Some y" "due y \<le> now s"
    and r: "runTask (callback y) (expire y s) = Inr s'"
    by (auto simp: fire_def split: option.splits if_splits sum.splits)
  have yin: "y \<in> set (timers s)" "ident y = ident x"
    using find_ident [OF y(1)] by simp_all
  then have yx: "y = x"
    using assms(3) by (simp add: pinned_def)
  have "now s \<le> due x"
    using assms(2) yin(1) yx by (simp add: timersOk_def)
  with y(2) yx show "now s = due x" by simp
  have "x \<in> set (pendingOf Reconnect s)"
    using yin(1) yx assms(4) by (simp add: pendingOf_def)
  then have "pendingOf Reconnect s \<noteq> []" by auto
  then have closed: "\<And>h. \<not> unclosedAt s h"
    using assms(1) by (simp add: single_def)
  have notopen: "\<not> (case wsRef (expire x s) of None \<Rightarrow> False | Some h \<Rightarrow> stateOf (expire x s) h = Some OPEN)"
    using closed by (auto simp: unclosedAt_def split: option.splits)
  have s': "s' = connect (expire x s)"
    using r yx assms(4) by (simp add: runTask_def)
  have c: "conns (expire x s) = conns s"
    by (simp add: expire_def split: option.splits)
  show "conns s' = conns s @ [\<lparr>readyState = CONNECTING, pingInterval = None\<rparr>]"
    using notopen by (simp add: s' connect_def newWebSocket_def c)
  show "wsRef s' = Some (length (conns s))"
    using notopen by (simp add: s' connect_def newWebSocket_def c)
qed

subsection \<open>Concrete runs and the connected flag\<close>

lemmas evals = fire_def initial_def effect_setup_def connect_def newWebSocket_def stateOf_def
  setReadyState_def onopen_def setInterval_def setPingInterval_def effect_cleanup_def
  ws_close_def onclose_def getPingInterval_def clearInterval_def clearTimeout_def
  setTimeout_def runTask_def expire_def onerror_def onmessage_def JSON_parse_def
  handleMessage_def debouncedInvalidate_def set_add_def flush_def invalidateAll_def
  pingTick_def ws_send_def sendMessage_def setQueryData_def

lemma run_attached: "run [Attach] initial = Some attached"
  by (simp add: evals attached_def)

lemma run_opened: "run [Attach, OnOpen 0] initial = Some opened"
  by (simp add: evals attached_def opened_def)

lemma run_errored: "run [Attach, OnOpen 0, OnError 0] initial = Some errored"
  by (simp add: evals attached_def opened_def errored_def)

lemma fire_closed: "fire (OnClose 0) opened = Some closed"
  by (simp add: evals attached_def opened_def closed_def)

lemma isConnected_simple [simp]:
  "isConnected (ws_close h s) = isConnected s"
  "isConnected (clearTimeout t s) = isConnected s"
  "isConnected (connect s) = isConnected s"
  "isConnected (onopen h s) = True"
  "isConnected (onclose h s) = False"
  "isConnected (debouncedInvalidate k s) = isConnected s"
  "isConnected (handleMessage m s) = isConnected s"
  "isConnected (flush s) = isConnected s"
  "isConnected (expire x s) = isConnected s"
  "isConnected (effect_cleanup s) = isConnected s"
  by (simp_all add: ws_close_def clearTimeout_def connect_def newWebSocket_def
        onopen_def onclose_def debouncedInvalidate_def handleMessage_def setQueryData_def
        flush_def expire_def effect_cleanup_def
        setInterval_def setTimeout_def clearInterval_def Let_def split: option.splits)

lemma isConnected_fire:
  assumes "fire e s = Some s'"
  shows "isConnected s' = (case lifecycle False e of None \<Rightarrow> isConnected s | Some b \<Rightarrow> b)"
proof (cases e)
  case (TimerDue t)
  then obtain x where r: "runTask (callback x) (expire x s) = Inr s'"
    using assms by (auto simp: fire_def split: option.splits if_splits sum.splits)
  then have "isConnected s' = isConnected s"
    by (auto simp: runTask_def pingTick_cases split: task.splits if_splits)
  then show ?thesis
    using TimerDue by (simp add: lifecycle_def)
next
  case AnimationFrame
  have inv: "invalidateAll ks t = t\<lparr>invalidated := invalidated t @ ks\<rparr>" for ks t
    by (simp add: invalidateAll_def)
  have "isConnected (fold invalidateAll fs t) = isConnected t" for fs t
    by (induction fs arbitrary: t) (simp_all add: inv)
  then show ?thesis
    using assms AnimationFrame by (auto simp: fire_def lifecycle_def)
qed (insert assms, auto simp: fire_def lifecycle_def effect_setup_def onerror_def onmessage_cases
       sendMessage_cases split: if_splits option.splits frame.splits)

lemma isConnected_run:
  "run es s = Some s' \<Longrightarrow>
   isConnected s' = (case List.map_filter (lifecycle False) es of [] \<Rightarrow> isConnected s | b # bs \<Rightarrow> last (b # bs))"
proof (induction es arbitrary: s)
  case Nil
  then show ?case by simp
next
  case (Cons e es)
  then obtain s1 where f: "fire e s = Some s1" and r: "run es s1 = Some s'"
    by (auto split: option.splits)
  show ?case
    using Cons.IH [OF r] isConnected_fire [OF f]
    by (auto split: option.splits list.splits)
qed

lemma run_waiting: "run [Elapse 3000] closed = Some waiting"
  by (simp add: evals closed_def opened_def attached_def waiting_def)

lemma fire_reconnecting: "fire (TimerDue 2) waiting = Some reconnecting"
  by (simp add: evals closed_def opened_def attached_def waiting_def reconnecting_def)

subsection \<open>The coalescer\<close>

lemma idle_coalescing: "idle s \<Longrightarrow> coalescing s [] (invalidated s)"
  by (simp add: idle_def coalescing_def)

lemma pendingOf_now [simp]: "pendingOf cb (s\<lparr>now := n\<rparr>) = pendingOf cb s"
  by (simp add: pendingOf_def)

lemma coalescing_Elapse:
  "coalescing s ks log \<Longrightarrow> fire (Elapse g) s = Some s1 \<Longrightarrow> coalescing s1 ks log"
  by (auto simp: fire_def coalescing_def split: if_splits option.splits)

lemma set_add_props:
  "distinct ks \<Longrightarrow> distinct (set_add k ks)"
  "set (set_add k ks) = insert k (set ks)"
  by (auto simp: set_add_def)

lemma request_fields [simp]:
  "pendingInvalidations (debouncedInvalidate k s) = set_add k (pendingInvalidations s)"
  "frames (debouncedInvalidate k s) = frames s"
  "invalidated (debouncedInvalidate k s) = invalidated s"
  "invalidationTimeoutRef (debouncedInvalidate k s) = Some (Suc (timerSeq s))"
  by (simp_all add: debouncedInvalidate_def setTimeout_def Let_def clearTimeout_def
        split: option.splits)

lemma coalescing_request:
  assumes "coalescing s ks log"
  shows "coalescing (debouncedInvalidate k s) (set_add k ks) log"
    and "pendingOf Flush (debouncedInvalidate k s) = [flushTimer (debouncedInvalidate k s)]"
    and "pinned (flushTimer (debouncedInvalidate k s)) (debouncedInvalidate k s)"
    and "invalidationTimeoutRef (debouncedInvalidate k s) = Some (timerSeq (debouncedInvalidate k s))"
proof -
  let ?s = "debouncedInvalidate k s"
  have old: "\<forall>x \<in> set (timers s). ident x \<le> timerSeq s"
    using assms by (simp add: coalescing_def list_all_iff)
  have fl: "pendingOf Flush ?s = [flushTimer ?s]"
  proof (cases "invalidationTimeoutRef s")
    case None
    then have "pendingOf Flush s = []"
      using assms by (simp add: coalescing_def)
    then show ?thesis
      using None by (simp add: pendingOf_def timers_debouncedInvalidate flushTimer_def)
  next
    case (Some t)
    then obtain d where "pendingOf Flush s = [\<lparr>ident = t, due = d, period = None, callback = Flush\<rparr>]"
      using assms by (auto simp: coalescing_def)
    then have "filter (\<lambda>x. ident x \<noteq> t) (pendingOf Flush s) = []"
      by simp
    then have "filter (\<lambda>x. callback x = Flush) (filter (\<lambda>x. ident x \<noteq> t) (timers s)) = []"
      by (simp add: pendingOf_def conj_commute)
    then show ?thesis
      using Some by (simp add: pendingOf_def timers_debouncedInvalidate flushTimer_def)
  qed
  show "pendingOf Flush ?s = [flushTimer ?s]" by (rule fl)
  show "coalescing ?s (set_add k ks) log"
    unfolding coalescing_def using assms old fl
    by (auto simp: coalescing_def set_add_props list_all_iff timers_debouncedInvalidate
          flushTimer_def split: option.splits)
  show "pinned (flushTimer ?s) ?s"
    unfolding pinned_def using old
    by (fastforce simp: flushTimer_def timers_debouncedInvalidate split: option.splits)
  show "invalidationTimeoutRef ?s = Some (timerSeq ?s)"
    by simp
qed

lemma coalescing_burst:
  assumes "coalescing s ks log" "rs \<noteq> []" "burst rs s = Some s'"
  shows "coalescing s' (fold set_add (map snd rs) ks) log \<and>
         pendingOf Flush s' = [flushTimer s'] \<and> pinned (flushTimer s') s' \<and>
         invalidationTimeoutRef s' = Some (timerSeq s')"
  using assms
proof (induction rs arbitrary: s ks)
  case Nil
  then show ?case by simp
next
  case (Cons r rs)
  obtain gap k where r: "r = (gap, k)" by (cases r)
  from Cons.prems(3) obtain s1 where e: "fire (Elapse gap) s = Some s1"
    and b: "burst rs (debouncedInvalidate k s1) = Some s'"
    by (auto simp: r split: option.splits)
  have c1: "coalescing s1 ks log"
    using Cons.prems(1) e by (rule coalescing_Elapse)
  note step = coalescing_request [OF c1, of k]
  show ?case
  proof (cases rs)
    case Nil
    then have "s' = debouncedInvalidate k s1"
      using b by simp
    then show ?thesis
      using step by (simp add: r Nil)
  next
    case (Cons r' rs')
    then have "rs \<noteq> []" by simp
    from Cons.IH [OF step(1) this b] show ?thesis
      by (simp add: r)
  qed
qed

lemma fold_set_add:
  "set (fold set_add xs ks) = set xs \<union> set ks"
  by (induction xs arbitrary: ks) (auto simp: set_add_props)

lemma find_pinned:
  assumes "pinned x s" "x \<in> set (timers s)"
  shows "find (\<lambda>y. ident y = ident x) (timers s) = Some x"
proof (cases "find (\<lambda>y. ident y = ident x) (timers s)")
  case None
  then show ?thesis
    using assms(2) by (auto simp: find_None_iff)
next
  case (Some y)
  then have "y \<in> set (timers s) \<and> ident y = ident x"
    by (rule find_ident)
  then have "y = x"
    using assms(1) by (simp add: pinned_def)
  then show ?thesis
    using Some by simp
qed

lemma flush_delivery:
  assumes "coalescing s ks log" "pendingOf Flush s = [flushTimer s]" "pinned (flushTimer s) s"
  shows "n < now s + 100 \<Longrightarrow> fire (TimerDue (timerSeq s)) (s\<lparr>now := n\<rparr>) = None"
    and "now s + 100 \<le> n \<Longrightarrow>
         \<exists>s1 s2. fire (TimerDue (timerSeq s)) (s\<lparr>now := n\<rparr>) = Some s1 \<and>
           invalidated s1 = log \<and> pendingOf Flush s1 = [] \<and>
           fire AnimationFrame s1 = Some s2 \<and> invalidated s2 = log @ ks \<and>
           frames s2 = [] \<and> pendingInvalidations s2 = []"
proof -
  let ?x = "flushTimer s"
  have xin: "?x \<in> set (timers s)"
  proof -
    have "?x \<in> set (pendingOf Flush s)"
      by (simp add: assms(2))
    then show ?thesis
      by (simp add: pendingOf_def)
  qed
  have f: "find (\<lambda>y. ident y = timerSeq s) (timers s) = Some ?x"
    using find_pinned [OF assms(3) xin] by (simp add: flushTimer_def)
  show "fire (TimerDue (timerSeq s)) (s\<lparr>now := n\<rparr>) = None" if "n < now s + 100"
    using that by (simp add: fire_def f) (simp add: flushTimer_def)
  have gone: "filter (\<lambda>y. callback y = Flush) (filter (\<lambda>y. ident y \<noteq> timerSeq s) (timers s)) = []"
  proof -
    have "filter (\<lambda>y. ident y \<noteq> timerSeq s) (pendingOf Flush s) = []"
      by (simp add: assms(2) flushTimer_def)
    then show ?thesis
      by (simp add: pendingOf_def conj_commute)
  qed
  show "\<exists>s1 s2. fire (TimerDue (timerSeq s)) (s\<lparr>now := n\<rparr>) = Some s1 \<and>
           invalidated s1 = log \<and> pendingOf Flush s1 = [] \<and>
           fire AnimationFrame s1 = Some s2 \<and> invalidated s2 = log @ ks \<and>
           frames s2 = [] \<and> pendingInvalidations s2 = []" if "now s + 100 \<le> n"
  proof -
    let ?s1 = "flush (expire ?x (s\<lparr>now := n\<rparr>))"
    have 1: "fire (TimerDue (timerSeq s)) (s\<lparr>now := n\<rparr>) = Some ?s1"
      using that by (simp add: fire_def f) (simp add: flushTimer_def runTask_def)
    have 2: "invalidated ?s1 = log" "frames ?s1 = [ks]" "pendingInvalidations ?s1 = []"
      using assms(1) by (simp_all add: coalescing_def flush_def expire_def flushTimer_def Let_def)
    have 3: "pendingOf Flush ?s1 = []"
      using gone by (simp add: pendingOf_def timers_expire flushTimer_def)
    have 4: "fire AnimationFrame ?s1 = Some (?s1\<lparr>frames := [], invalidated := log @ ks\<rparr>)"
      by (simp add: fire_def 2 invalidateAll_def)
    show ?thesis
      using 1 2 3 4 by simp
  qed
qed

lemma idle_opened: "idle opened"
  by (simp add: idle_def opened_def attached_def initial_def pendingOf_def)

lemma burst_opened:
  "burst [(0, ''archives''), (0, ''archiveStats''), (50, ''archives''), (0, ''archiveStats'')] opened =
     Some bursted"
  by (simp add: evals opened_def attached_def bursted_def)

subsection \<open>The keepalive interval under the events\<close>

lemma getPingInterval_update [simp]:
  "getPingInterval (s\<lparr>wsRef := w\<rparr>) = getPingInterval s"
  "getPingInterval (s\<lparr>timers := ts\<rparr>) = getPingInterval s"
  "getPingInterval (s\<lparr>timerSeq := n\<rparr>) = getPingInterval s"
  "getPingInterval (s\<lparr>isConnected := b\<rparr>) = getPingInterval s"
  "getPingInterval (s\<lparr>reconnectTimeoutRef := r\<rparr>) = getPingInterval s"
  "getPingInterval (s\<lparr>invalidationTimeoutRef := r\<rparr>) = getPingInterval s"
  "getPingInterval (s\<lparr>pendingInvalidations := ks\<rparr>) = getPingInterval s"
  "getPingInterval (s\<lparr>frames := fs\<rparr>) = getPingInterval s"
  "getPingInterval (s\<lparr>queryData := q\<rparr>) = getPingInterval s"
  "getPingInterval (s\<lparr>invalidated := ks\<rparr>) = getPingInterval s"
  "getPingInterval (s\<lparr>sent := xs\<rparr>) = getPingInterval s"
  "getPingInterval (s\<lparr>now := n\<rparr>) = getPingInterval s"
  "getPingInterval (s\<lparr>phase := p\<rparr>) = getPingInterval s"
  by (simp_all add: getPingInterval_def fun_eq_iff)

lemma getPingInterval_simple [simp]:
  "getPingInterval (setReadyState h r s) = getPingInterval s"
  "getPingInterval (ws_close h s) = getPingInterval s"
  "getPingInterval (clearTimeout t s) = getPingInterval s"
  "getPingInterval (connect s) = getPingInterval s"
  "getPingInterval (debouncedInvalidate k s) = getPingInterval s"
  "getPingInterval (handleMessage m s) = getPingInterval s"
  "getPingInterval (flush s) = getPingInterval s"
  "getPingInterval (expire x s) = getPingInterval s"
  "getPingInterval (effect_cleanup s) = getPingInterval s"
  by (auto simp: getPingInterval_def setReadyState_def ws_close_def clearTimeout_def
        connect_def newWebSocket_def debouncedInvalidate_def handleMessage_def setQueryData_def
        flush_def expire_def effect_cleanup_def setTimeout_def Let_def fun_eq_iff
        nth_list_update nth_append split: option.splits)

lemma getPingInterval_setPingInterval:
  "getPingInterval (setPingInterval h v s) h' =
     (if h' = h \<and> h < length (conns s) then v else getPingInterval s h')"
  by (simp add: getPingInterval_def setPingInterval_def)

lemma getPingInterval_onopen:
  "getPingInterval (onopen h s) h' =
     (if h' = h \<and> h < length (conns s) then Some (Suc (timerSeq s)) else getPingInterval s h')"
  by (simp add: onopen_def setInterval_def Let_def getPingInterval_setPingInterval)

lemma getPingInterval_onclose:
  "getPingInterval (onclose h s) h' = (if h' = h then None else getPingInterval s h')"
  by (auto simp: onclose_def setTimeout_def Let_def clearInterval_def clearTimeout_def
        getPingInterval_setPingInterval split: option.splits)
     (auto simp: getPingInterval_def split: if_splits)

lemma refs_simple [simp]:
  "reconnectTimeoutRef (ws_close h s) = reconnectTimeoutRef s"
  "invalidationTimeoutRef (ws_close h s) = invalidationTimeoutRef s"
  "reconnectTimeoutRef (connect s) = reconnectTimeoutRef s"
  "invalidationTimeoutRef (connect s) = invalidationTimeoutRef s"
  "reconnectTimeoutRef (onopen h s) = reconnectTimeoutRef s"
  "invalidationTimeoutRef (onopen h s) = invalidationTimeoutRef s"
  "reconnectTimeoutRef (onclose h s) = Some (Suc (timerSeq s))"
  "invalidationTimeoutRef (onclose h s) = invalidationTimeoutRef s"
  "reconnectTimeoutRef (debouncedInvalidate k s) = reconnectTimeoutRef s"
  "reconnectTimeoutRef (flush s) = reconnectTimeoutRef s"
  "invalidationTimeoutRef (flush s) = None"
  "reconnectTimeoutRef (expire x s) = reconnectTimeoutRef s"
  "invalidationTimeoutRef (expire x s) = invalidationTimeoutRef s"
  "reconnectTimeoutRef (effect_cleanup s) = reconnectTimeoutRef s"
  "invalidationTimeoutRef (effect_cleanup s) = invalidationTimeoutRef s"
  by (simp_all add: ws_close_def clearTimeout_def connect_def newWebSocket_def
        onopen_def onclose_def debouncedInvalidate_def
        flush_def expire_def effect_cleanup_def
        setInterval_def setTimeout_def clearInterval_def Let_def split: option.splits)

lemma refsOk_debouncedInvalidate:
  assumes "timersOk s" "refsOk s"
  shows "refsOk (debouncedInvalidate k s)"
proof -
  have old: "\<forall>x \<in> set (timers s). ident x \<le> timerSeq s"
    using assms(1) by (simp add: timersOk_def)
  show ?thesis
    unfolding refsOk_def using assms(2) old
    by (auto simp: refsOk_def timers_debouncedInvalidate split: option.splits)
qed

lemma refsOk_handleMessage:
  assumes "timersOk s" "refsOk s"
  shows "refsOk (handleMessage m s)"
proof -
  have one: "refsOk (debouncedInvalidate k s)" for k
    using assms by (rule refsOk_debouncedInvalidate)
  have two: "refsOk (debouncedInvalidate k' (debouncedInvalidate k s))" for k k'
    using timersOk_grows [OF assms(1) grows_debouncedInvalidate] one
    by (rule refsOk_debouncedInvalidate)
  have q: "refsOk (setQueryData key u s)" for key u
    using assms(2) by (simp add: refsOk_def setQueryData_def)
  show ?thesis
    using assms(2) one two q by (simp add: handleMessage_def split: option.splits)
qed

lemma refsOk_same:
  assumes "refsOk s" "timers s' = timers s" "timerSeq s' = timerSeq s"
    "reconnectTimeoutRef s' = reconnectTimeoutRef s"
    "invalidationTimeoutRef s' = invalidationTimeoutRef s"
  shows "refsOk s'"
  using assms by (simp add: refsOk_def)

lemma refsOk_fire:
  assumes "timersOk s" "refsOk s" "fire e s = Some s'"
  shows "refsOk s'"
proof (cases e)
  case Attach
  then have "s' = connect (s\<lparr>phase := Attached\<rparr>)"
    using assms(3) by (auto simp: fire_def effect_setup_def split: if_splits)
  then show ?thesis
    using assms(2) by (auto intro: refsOk_same)
next
  case Detach
  then have "s' = effect_cleanup (s\<lparr>phase := Detached\<rparr>)"
    using assms(3) by (auto simp: fire_def split: if_splits)
  then show ?thesis
    using assms(2) by (auto simp: refsOk_def timers_effect_cleanup)
next
  case (OnOpen h)
  then have s': "s' = onopen h (setReadyState h OPEN s)"
    using assms(3) by (auto simp: fire_def split: if_splits)
  have old: "\<forall>x \<in> set (timers s). ident x \<le> timerSeq s"
    using assms(1) by (simp add: timersOk_def)
  show ?thesis
    unfolding refsOk_def using assms(2) old
    by (auto simp: s' refsOk_def timers_onopen)
next
  case (OnMessage h f)
  then have "s' = (case f of Undecodable \<Rightarrow> s | Decoded m \<Rightarrow> handleMessage m s)"
    using assms(3) by (auto simp: fire_def onmessage_cases split: if_splits)
  then show ?thesis
    using assms(1,2) by (auto intro: refsOk_handleMessage split: frame.splits)
next
  case (OnError h)
  then have "s' = ws_close h s"
    using assms(3) by (auto simp: fire_def onerror_def split: if_splits)
  then show ?thesis
    using assms(2) by (auto intro: refsOk_same)
next
  case (OnClose h)
  then have s': "s' = onclose h (setReadyState h CLOSED s)"
    using assms(3) by (auto simp: fire_def split: if_splits)
  have old: "\<forall>x \<in> set (timers s). ident x \<le> timerSeq s"
    using assms(1) by (simp add: timersOk_def)
  show ?thesis
    unfolding refsOk_def using assms(2) old
    by (auto simp: s' refsOk_def timers_onclose split: option.splits)
next
  case (TimerDue t)
  then obtain x where r: "runTask (callback x) (expire x s) = Inr s'"
    using assms(3) by (auto simp: fire_def split: option.splits if_splits sum.splits)
  have e: "refsOk (expire x s)"
    using assms(2) by (auto simp: refsOk_def timers_expire split: option.splits)
  have "refsOk (flush (expire x s))"
    using e by (simp add: refsOk_def)
  moreover have "refsOk (connect (expire x s))"
    using e by (auto intro: refsOk_same)
  moreover have "refsOk ((expire x s)\<lparr>sent := v\<rparr>)" for v
    using e by (simp add: refsOk_def)
  ultimately show ?thesis
    using r e by (auto simp: runTask_def pingTick_cases split: task.splits if_splits)
next
  case AnimationFrame
  have inv: "invalidateAll ks t = t\<lparr>invalidated := invalidated t @ ks\<rparr>" for ks t
    by (simp add: invalidateAll_def)
  have "refsOk (fold invalidateAll fs t) = refsOk t" for fs t
    by (induction fs arbitrary: t) (simp_all add: inv refsOk_def)
  moreover have "refsOk (s\<lparr>frames := []\<rparr>) = refsOk s"
    by (simp add: refsOk_def)
  ultimately show ?thesis
    using assms AnimationFrame by (auto simp: fire_def)
next
  case (Elapse d)
  then show ?thesis
    using assms by (auto simp: fire_def refsOk_def split: if_splits)
next
  case (Send m)
  then show ?thesis
    using assms by (auto simp: fire_def sendMessage_cases refsOk_def split: option.splits if_splits)
qed

lemma ping_step:
  assumes k: "pingTimers s" "pingVars s" "pingOpen s"
    and T: "\<And>y. y \<in> set (timers s') \<Longrightarrow> y \<in> set (timers s) \<or> (\<forall>h. callback y \<noteq> Ping h)"
    and P: "\<And>x h. x \<in> set (timers s) \<Longrightarrow> callback x = Ping h \<Longrightarrow> x \<in> set (timers s')"
    and G: "getPingInterval s' = getPingInterval s" "isConnected s' = isConnected s" "now s' = now s"
    and S1: "\<And>h. stateOf s' h = Some OPEN \<Longrightarrow> stateOf s h = Some OPEN"
    and S2: "\<And>h. stateOf s h = Some OPEN \<or> stateOf s h = Some CLOSING \<Longrightarrow>
               stateOf s' h = Some OPEN \<or> stateOf s' h = Some CLOSING"
  shows "pingTimers s' \<and> pingVars s' \<and> pingOpen s'"
proof (intro conjI)
  show "pingTimers s'"
    unfolding pingTimers_def
  proof (intro ballI allI impI)
    fix y h assume y: "y \<in> set (timers s')" "callback y = Ping h"
    then have "y \<in> set (timers s)"
      using T [of y] by auto
    then show "getPingInterval s' h = Some (ident y) \<and> period y = Some 30000 \<and>
        due y \<le> now s' + 30000"
      using k(1) y(2) by (simp add: pingTimers_def G)
  qed
  show "pingVars s'"
    unfolding pingVars_def
  proof (intro allI impI)
    fix h t assume "getPingInterval s' h = Some t"
    then have g: "getPingInterval s h = Some t"
      by (simp add: G)
    then obtain x where x: "x \<in> set (timers s)" "ident x = t" "callback x = Ping h"
      and st: "stateOf s h = Some OPEN \<or> stateOf s h = Some CLOSING" and c: "isConnected s"
      using k(2) unfolding pingVars_def by blast
    have "x \<in> set (timers s')"
      using P x(1,3) by blast
    then show "(\<exists>x \<in> set (timers s'). ident x = t \<and> callback x = Ping h) \<and>
        (stateOf s' h = Some OPEN \<or> stateOf s' h = Some CLOSING) \<and> isConnected s'"
      using x(2,3) S2 [OF st] c by (auto simp: G)
  qed
  show "pingOpen s'"
    using k(3) S1 unfolding pingOpen_def by (auto simp: G)
qed

lemma ping_timer_not_ref:
  assumes "refsOk s" "x \<in> set (timers s)" "callback x = Ping h"
  shows "reconnectTimeoutRef s \<noteq> Some (ident x)" "invalidationTimeoutRef s \<noteq> Some (ident x)"
  using assms by (auto simp: refsOk_def)

lemma ping_connect:
  assumes "pingTimers s \<and> pingVars s \<and> pingOpen s"
  shows "pingTimers (connect s) \<and> pingVars (connect s) \<and> pingOpen (connect s)"
proof (rule ping_step)
  show "stateOf (connect s) h = Some OPEN \<Longrightarrow> stateOf s h = Some OPEN" for h
    by (auto simp: stateOf_connect split: if_splits)
  show "stateOf s h = Some OPEN \<or> stateOf s h = Some CLOSING \<Longrightarrow>
        stateOf (connect s) h = Some OPEN \<or> stateOf (connect s) h = Some CLOSING" for h
  proof -
    assume a: "stateOf s h = Some OPEN \<or> stateOf s h = Some CLOSING"
    then have "h \<noteq> length (conns s)"
      by (auto simp: stateOf_def)
    then have "stateOf (connect s) h = stateOf s h"
      by (simp add: stateOf_connect)
    then show ?thesis using a by simp
  qed
qed (insert assms, simp_all)

lemma ping_ws_close:
  assumes "pingTimers s \<and> pingVars s \<and> pingOpen s"
  shows "pingTimers (ws_close h s) \<and> pingVars (ws_close h s) \<and> pingOpen (ws_close h s)"
proof (rule ping_step)
  show "stateOf (ws_close h s) h' = Some OPEN \<Longrightarrow> stateOf s h' = Some OPEN" for h'
    by (auto simp: stateOf_ws_close split: if_splits)
  show "stateOf s h' = Some OPEN \<or> stateOf s h' = Some CLOSING \<Longrightarrow>
        stateOf (ws_close h s) h' = Some OPEN \<or> stateOf (ws_close h s) h' = Some CLOSING" for h'
    by (auto simp: stateOf_ws_close)
qed (insert assms, simp_all)

lemma ping_effect_cleanup:
  assumes "pingTimers s \<and> pingVars s \<and> pingOpen s" "refsOk s"
  shows "pingTimers (effect_cleanup s) \<and> pingVars (effect_cleanup s) \<and> pingOpen (effect_cleanup s)"
proof (rule ping_step)
  show "stateOf (effect_cleanup s) h' = Some OPEN \<Longrightarrow> stateOf s h' = Some OPEN" for h'
    by (auto simp: stateOf_effect_cleanup split: if_splits)
  show "stateOf s h' = Some OPEN \<or> stateOf s h' = Some CLOSING \<Longrightarrow>
        stateOf (effect_cleanup s) h' = Some OPEN \<or> stateOf (effect_cleanup s) h' = Some CLOSING" for h'
    by (auto simp: stateOf_effect_cleanup)
  show "x \<in> set (timers s) \<Longrightarrow> callback x = Ping h \<Longrightarrow> x \<in> set (timers (effect_cleanup s))" for x h
    using ping_timer_not_ref [OF assms(2)] by (auto simp: timers_effect_cleanup)
  show "y \<in> set (timers (effect_cleanup s)) \<Longrightarrow> y \<in> set (timers s) \<or> (\<forall>h. callback y \<noteq> Ping h)" for y
    by (simp add: timers_effect_cleanup)
qed (insert assms, simp_all)

lemma ping_debouncedInvalidate:
  assumes "pingTimers s \<and> pingVars s \<and> pingOpen s" "refsOk s"
  shows "pingTimers (debouncedInvalidate k s) \<and> pingVars (debouncedInvalidate k s) \<and>
         pingOpen (debouncedInvalidate k s)"
proof (rule ping_step)
  show "x \<in> set (timers s) \<Longrightarrow> callback x = Ping h \<Longrightarrow> x \<in> set (timers (debouncedInvalidate k s))" for x h
    using ping_timer_not_ref [OF assms(2)] by (auto simp: timers_debouncedInvalidate split: option.splits)
  show "y \<in> set (timers (debouncedInvalidate k s)) \<Longrightarrow> y \<in> set (timers s) \<or> (\<forall>h. callback y \<noteq> Ping h)" for y
    by (auto simp: timers_debouncedInvalidate split: option.splits)
qed (insert assms, simp_all)

lemma ping_handleMessage:
  assumes "pingTimers s \<and> pingVars s \<and> pingOpen s" "refsOk s" "timersOk s"
  shows "pingTimers (handleMessage m s) \<and> pingVars (handleMessage m s) \<and>
         pingOpen (handleMessage m s)"
proof -
  have one: "pingTimers (debouncedInvalidate k s) \<and> pingVars (debouncedInvalidate k s) \<and>
         pingOpen (debouncedInvalidate k s)" for k
    using assms(1,2) by (rule ping_debouncedInvalidate)
  have two: "pingTimers (debouncedInvalidate k' (debouncedInvalidate k s)) \<and>
         pingVars (debouncedInvalidate k' (debouncedInvalidate k s)) \<and>
         pingOpen (debouncedInvalidate k' (debouncedInvalidate k s))" for k k'
    using one refsOk_debouncedInvalidate [OF assms(3,2)] by (rule ping_debouncedInvalidate)
  have q: "pingTimers (setQueryData key u s) \<and> pingVars (setQueryData key u s) \<and>
         pingOpen (setQueryData key u s)" for key u
    using assms(1) by (simp add: pingTimers_def pingVars_def pingOpen_def setQueryData_def)
  show ?thesis
    using assms(1) one two q by (simp add: handleMessage_def split: option.splits)
qed

lemma length_conns_setReadyState: "length (conns (setReadyState h r s)) = length (conns s)"
  by (simp add: setReadyState_def)

lemma connecting_unarmed:
  "pingVars s \<Longrightarrow> stateOf s h = Some CONNECTING \<Longrightarrow> getPingInterval s h = None"
proof (cases "getPingInterval s h")
  case (Some t)
  assume "pingVars s" "stateOf s h = Some CONNECTING"
  then have "stateOf s h = Some OPEN \<or> stateOf s h = Some CLOSING"
    using Some unfolding pingVars_def by blast
  then show ?thesis
    using \<open>stateOf s h = Some CONNECTING\<close> by simp
qed simp

lemma ping_onopen:
  assumes k: "pingTimers s" "pingVars s" "pingOpen s"
    and c: "stateOf s h = Some CONNECTING"
  shows "pingTimers (onopen h (setReadyState h OPEN s)) \<and>
         pingVars (onopen h (setReadyState h OPEN s)) \<and>
         pingOpen (onopen h (setReadyState h OPEN s))"
proof -
  let ?s = "onopen h (setReadyState h OPEN s)"
  have h: "h < length (conns s)"
    using c by (rule stateOf_valid)
  have none: "getPingInterval s h = None"
    using k(2) c by (rule connecting_unarmed)
  have g: "getPingInterval ?s h' = (if h' = h then Some (Suc (timerSeq s)) else getPingInterval s h')" for h'
    using h by (simp add: getPingInterval_onopen length_conns_setReadyState)
  have st: "stateOf (setReadyState h OPEN s) h' = (if h' = h then Some OPEN else stateOf s h')" for h'
    using h by (simp add: stateOf_setReadyState)
  have ts: "timers ?s = timers s @
      [\<lparr>ident = Suc (timerSeq s), due = now s + 30000, period = Some 30000, callback = Ping h\<rparr>]"
    by (simp add: timers_onopen)
  have 1: "pingTimers ?s"
    unfolding pingTimers_def
  proof (intro ballI allI impI)
    fix y h' assume y: "y \<in> set (timers ?s)" "callback y = Ping h'"
    show "getPingInterval ?s h' = Some (ident y) \<and> period y = Some 30000 \<and> due y \<le> now ?s + 30000"
    proof (cases "y \<in> set (timers s)")
      case True
      then have o: "getPingInterval s h' = Some (ident y)" "period y = Some 30000"
        "due y \<le> now s + 30000"
        using k(1) y(2) by (auto simp: pingTimers_def)
      then have "h' \<noteq> h"
        using none by auto
      then show ?thesis
        using o by (simp add: g)
    next
      case False
      then have "y = \<lparr>ident = Suc (timerSeq s), due = now s + 30000, period = Some 30000, callback = Ping h\<rparr>"
        using y(1) by (simp add: ts)
      then have v: "ident y = Suc (timerSeq s)" "due y = now s + 30000" "period y = Some 30000"
        "h' = h"
        using y(2) by simp_all
      have "getPingInterval ?s h = Some (Suc (timerSeq s))"
        using g [of h] by simp
      then show ?thesis
        unfolding v by simp
    qed
  qed
  have 2: "pingVars ?s"
    unfolding pingVars_def
  proof (intro allI impI)
    fix h' t assume a: "getPingInterval ?s h' = Some t"
    show "(\<exists>x \<in> set (timers ?s). ident x = t \<and> callback x = Ping h') \<and>
        (stateOf ?s h' = Some OPEN \<or> stateOf ?s h' = Some CLOSING) \<and> isConnected ?s"
    proof (cases "h' = h")
      case True
      then show ?thesis
        using a by (auto simp: g st ts)
    next
      case False
      then have "getPingInterval s h' = Some t"
        using a by (simp add: g)
      then show ?thesis
        using k(2) False by (auto simp: pingVars_def st ts)
    qed
  qed
  have 3: "pingOpen ?s"
    unfolding pingOpen_def using k(3)
    by (auto simp: pingOpen_def g st split: if_splits)
  show ?thesis
    using 1 2 3 by blast
qed

lemma ping_onclose:
  assumes k: "pingTimers s" "pingVars s" "pingOpen s"
    and s: "single s" and u: "unclosedAt s h"
  shows "pingTimers (onclose h (setReadyState h CLOSED s)) \<and>
         pingVars (onclose h (setReadyState h CLOSED s)) \<and>
         pingOpen (onclose h (setReadyState h CLOSED s))"
proof -
  let ?s = "onclose h (setReadyState h CLOSED s)"
  have h: "h < length (conns s)"
    using u by (auto simp: unclosedAt_def dest: stateOf_valid)
  have others: "getPingInterval s h' = None" if "h' \<noteq> h" for h'
  proof (cases "getPingInterval s h'")
    case (Some t)
    then have "stateOf s h' = Some OPEN \<or> stateOf s h' = Some CLOSING"
      using k(2) by (auto simp: pingVars_def)
    then have "unclosedAt s h'"
      by (auto simp: unclosedAt_def)
    then have "h' = h"
      by (rule single_unique [OF s _ u])
    then show ?thesis
      using that by simp
  qed simp
  have g: "getPingInterval ?s h' = None" for h'
    using others [of h'] by (simp add: getPingInterval_onclose)
  have st: "stateOf (setReadyState h CLOSED s) h' = (if h' = h then Some CLOSED else stateOf s h')" for h'
    using h by (simp add: stateOf_setReadyState)
  have noping: "callback y \<noteq> Ping h'" if "y \<in> set (timers ?s)" for y h'
  proof
    assume p: "callback y = Ping h'"
    then have yin: "y \<in> set (timers s)"
      and keep: "getPingInterval s h \<noteq> Some (ident y)"
      using that by (auto simp: timers_onclose split: option.splits)
    then have "getPingInterval s h' = Some (ident y)"
      using k(1) p by (auto simp: pingTimers_def)
    then show False
      using keep others [of h'] by (cases "h' = h") auto
  qed
  have 1: "pingTimers ?s"
    unfolding pingTimers_def using noping by blast
  have 2: "pingVars ?s"
    unfolding pingVars_def by (simp add: g)
  have 3: "pingOpen ?s"
    unfolding pingOpen_def
  proof (intro conjI allI impI)
    fix h' assume "stateOf ?s h' = Some OPEN"
    then have "h' \<noteq> h" "stateOf s h' = Some OPEN"
      using h by (auto simp: stateOf_setReadyState split: if_splits)
    then have "unclosedAt s h'" by (simp add: unclosedAt_def)
    then have "h' = h" by (rule single_unique [OF s _ u])
    then show "getPingInterval ?s h' \<noteq> None"
      using \<open>h' \<noteq> h\<close> by simp
  next
    assume "isConnected ?s"
    then show "\<exists>h. getPingInterval ?s h \<noteq> None" by simp
  qed
  show ?thesis
    using 1 2 3 by blast
qed

lemma ping_expire:
  assumes k: "pingTimers s" "pingVars s" "pingOpen s"
    and t: "timersOk s" and x: "x \<in> set (timers s)" "due x \<le> now s"
  shows "pingTimers (expire x s) \<and> pingVars (expire x s) \<and> pingOpen (expire x s)"
proof (cases "period x")
  case None
  show ?thesis
  proof (rule ping_step [OF k])
    show "y \<in> set (timers (expire x s)) \<Longrightarrow> y \<in> set (timers s) \<or> (\<forall>h. callback y \<noteq> Ping h)" for y
      by (simp add: timers_expire None)
    show "y \<in> set (timers (expire x s))" if "y \<in> set (timers s)" "callback y = Ping h" for y h
    proof -
      have "period y = Some 30000"
        using k(1) that by (auto simp: pingTimers_def)
      then have "y \<noteq> x" using None by auto
      moreover have "distinct (map ident (timers s))"
        using t by (simp add: timersOk_def)
      ultimately have "ident y \<noteq> ident x"
        using that(1) x(1) by (auto simp: distinct_map inj_on_def)
      then show ?thesis
        using that(1) by (simp add: timers_expire None)
    qed
  qed simp_all
next
  case (Some p)
  let ?f = "\<lambda>y. if ident y = ident x then y\<lparr>due := due y + p\<rparr> else y"
  have ts: "timers (expire x s) = map ?f (timers s)"
    by (simp add: timers_expire Some)
  have d: "distinct (map ident (timers s))"
    using t by (simp add: timersOk_def)
  have 1: "pingTimers (expire x s)"
    unfolding pingTimers_def
  proof (intro ballI allI impI)
    fix y' h assume y': "y' \<in> set (timers (expire x s))" "callback y' = Ping h"
    then obtain y where y: "y \<in> set (timers s)" "y' = ?f y"
      by (auto simp: ts)
    then have cb: "callback y = Ping h"
      using y'(2) by (auto split: if_splits)
    then have o: "getPingInterval s h = Some (ident y)" "period y = Some 30000"
      "due y \<le> now s + 30000"
      using k(1) y(1) by (auto simp: pingTimers_def)
    show "getPingInterval (expire x s) h = Some (ident y') \<and> period y' = Some 30000 \<and>
        due y' \<le> now (expire x s) + 30000"
    proof (cases "ident y = ident x")
      case True
      then have "y = x"
        using d y(1) x(1) by (auto simp: distinct_map inj_on_def)
      then have "p = 30000" "due y \<le> now s"
        using o(2) Some x(2) by simp_all
      then show ?thesis
        using o True by (simp add: y(2))
    next
      case False
      then show ?thesis
        using o by (simp add: y(2))
    qed
  qed
  have 2: "pingVars (expire x s)"
    unfolding pingVars_def
  proof (intro allI impI)
    fix h t' assume "getPingInterval (expire x s) h = Some t'"
    then obtain y where y: "y \<in> set (timers s)" "ident y = t'" "callback y = Ping h"
      and r: "stateOf s h = Some OPEN \<or> stateOf s h = Some CLOSING" "isConnected s"
      using k(2) unfolding pingVars_def by auto
    have "?f y \<in> set (timers (expire x s))" "ident (?f y) = t'" "callback (?f y) = Ping h"
      using y by (auto simp: ts)
    then show "(\<exists>z \<in> set (timers (expire x s)). ident z = t' \<and> callback z = Ping h) \<and>
        (stateOf (expire x s) h = Some OPEN \<or> stateOf (expire x s) h = Some CLOSING) \<and>
        isConnected (expire x s)"
      using r by (intro conjI bexI [of _ "?f y"]) simp_all
  qed
  have 3: "pingOpen (expire x s)"
    using k(3) by (simp add: pingOpen_def)
  show ?thesis
    using 1 2 3 by blast
qed

lemma ping_irrelevant:
  "pingTimers (s\<lparr>phase := p\<rparr>) = pingTimers s" "pingVars (s\<lparr>phase := p\<rparr>) = pingVars s"
  "pingOpen (s\<lparr>phase := p\<rparr>) = pingOpen s"
  "pingTimers (s\<lparr>sent := v\<rparr>) = pingTimers s" "pingVars (s\<lparr>sent := v\<rparr>) = pingVars s"
  "pingOpen (s\<lparr>sent := v\<rparr>) = pingOpen s"
  "pingTimers (s\<lparr>frames := fs\<rparr>) = pingTimers s" "pingVars (s\<lparr>frames := fs\<rparr>) = pingVars s"
  "pingOpen (s\<lparr>frames := fs\<rparr>) = pingOpen s"
  "pingTimers (s\<lparr>invalidated := ks\<rparr>) = pingTimers s" "pingVars (s\<lparr>invalidated := ks\<rparr>) = pingVars s"
  "pingOpen (s\<lparr>invalidated := ks\<rparr>) = pingOpen s"
  "pingTimers (flush s) = pingTimers s" "pingVars (flush s) = pingVars s"
  "pingOpen (flush s) = pingOpen s"
  by (simp_all add: pingTimers_def pingVars_def pingOpen_def)

lemma keepalive_fire:
  assumes s: "single s" and t: "timersOk s" and k: "keepalive s" and f: "fire e s = Some s'"
  shows "keepalive s'"
proof -
  have r: "refsOk s" and p: "pingTimers s \<and> pingVars s \<and> pingOpen s"
    using k by (simp_all add: keepalive_def)
  have r': "refsOk s'"
    using t r f by (rule refsOk_fire)
  have "pingTimers s' \<and> pingVars s' \<and> pingOpen s'"
  proof (cases e)
    case Attach
    then have s': "s' = connect (s\<lparr>phase := Attached\<rparr>)"
      using f by (auto simp: fire_def effect_setup_def split: if_splits)
    show ?thesis
      unfolding s' using p by (intro ping_connect) (simp add: ping_irrelevant)
  next
    case Detach
    then have s': "s' = effect_cleanup (s\<lparr>phase := Detached\<rparr>)"
      using f by (auto simp: fire_def split: if_splits)
    have "refsOk (s\<lparr>phase := Detached\<rparr>)"
      using r by (simp add: refsOk_def)
    then show ?thesis
      unfolding s' using p by (intro ping_effect_cleanup) (simp_all add: ping_irrelevant)
  next
    case (OnOpen h)
    then have c: "stateOf s h = Some CONNECTING" and s': "s' = onopen h (setReadyState h OPEN s)"
      using f by (auto simp: fire_def split: if_splits)
    show ?thesis
      unfolding s' using p c by (intro ping_onopen) simp_all
  next
    case (OnMessage h m)
    then have "s' = (case m of Undecodable \<Rightarrow> s | Decoded m \<Rightarrow> handleMessage m s)"
      using f by (auto simp: fire_def onmessage_cases split: if_splits)
    then show ?thesis
      using p ping_handleMessage [OF p r t] by (auto split: frame.splits)
  next
    case (OnError h)
    then have "s' = ws_close h s"
      using f by (auto simp: fire_def onerror_def split: if_splits)
    then show ?thesis
      using ping_ws_close [OF p] by simp
  next
    case (OnClose h)
    then have en: "stateOf s h \<noteq> None" "stateOf s h \<noteq> Some CLOSED"
      and s': "s' = onclose h (setReadyState h CLOSED s)"
      using f by (auto simp: fire_def split: if_splits)
    have u: "unclosedAt s h"
      using en by (cases "stateOf s h") (auto simp: unclosedAt_def intro: readyState.exhaust)
    show ?thesis
      unfolding s' using p s u by (intro ping_onclose) simp_all
  next
    case (TimerDue i)
    then obtain x where x: "find (\<lambda>x. ident x = i) (timers s) = Some x" "due x \<le> now s"
      and run: "runTask (callback x) (expire x s) = Inr s'"
      using f by (auto simp: fire_def split: option.splits if_splits sum.splits)
    have xin: "x \<in> set (timers s)"
      using find_ident [OF x(1)] by simp
    have e: "pingTimers (expire x s) \<and> pingVars (expire x s) \<and> pingOpen (expire x s)"
      using p t xin x(2) by (intro ping_expire) simp_all
    show ?thesis
    proof (cases "callback x")
      case Reconnect
      then have "s' = connect (expire x s)"
        using run by (simp add: runTask_def)
      then show ?thesis
        using ping_connect [OF e] by simp
    next
      case Flush
      then have "s' = flush (expire x s)"
        using run by (simp add: runTask_def)
      then show ?thesis
        using e by (simp add: ping_irrelevant)
    next
      case (Ping h)
      then have "s' = expire x s \<or> s' = (expire x s)\<lparr>sent := sent (expire x s) @ [(h, pingFrame)]\<rparr>"
        using run by (auto simp: runTask_def pingTick_cases split: if_splits)
      then show ?thesis
        using e by (auto simp: ping_irrelevant)
    qed
  next
    case AnimationFrame
    have inv: "invalidateAll ks u = u\<lparr>invalidated := invalidated u @ ks\<rparr>" for ks u
      by (simp add: invalidateAll_def)
    have "pingTimers (fold invalidateAll fs u) = pingTimers u \<and>
          pingVars (fold invalidateAll fs u) = pingVars u \<and>
          pingOpen (fold invalidateAll fs u) = pingOpen u" for fs u
      by (induction fs arbitrary: u) (simp_all add: inv ping_irrelevant)
    then show ?thesis
      using f p AnimationFrame by (auto simp: fire_def ping_irrelevant)
  next
    case (Elapse d)
    then have "s' = s\<lparr>now := now s + d\<rparr>"
      using f by (auto simp: fire_def split: if_splits)
    then show ?thesis
      using p by (fastforce simp: pingTimers_def pingVars_def pingOpen_def)
  next
    case (Send m)
    then show ?thesis
      using f p by (auto simp: fire_def sendMessage_cases ping_irrelevant split: option.splits if_splits)
  qed
  then show ?thesis
    using r' by (simp add: keepalive_def)
qed

lemma keepalive_initial: "keepalive initial"
  by (simp add: keepalive_def pingTimers_def pingVars_def pingOpen_def refsOk_def
        initial_def getPingInterval_def stateOf_def)

lemma keepalive_run:
  "single s \<Longrightarrow> timersOk s \<Longrightarrow> keepalive s \<Longrightarrow> run es s = Some s' \<Longrightarrow> keepalive s'"
proof (induction es arbitrary: s)
  case Nil
  then show ?case by simp
next
  case (Cons e es)
  then obtain s1 where f: "fire e s = Some s1" and r: "run es s1 = Some s'"
    by (auto split: option.splits)
  show ?case
    using Cons.IH [OF single_fire [OF Cons.prems(1) f] timersOk_fire [OF Cons.prems(2) f]
        keepalive_fire [OF Cons.prems(1,2,3) f] r] .
qed

lemma reachable_keepalive: "run es initial = Some s \<Longrightarrow> keepalive s"
  by (rule keepalive_run [OF single_initial timersOk_initial keepalive_initial])

subsection \<open>The tick of the keepalive interval\<close>

lemma run_detached: "run [Attach, OnOpen 0, Elapse 29999, Detach] initial = Some detached"
  by (simp add: evals attached_def opened_def detached_def)

lemma run_ticked: "run [Elapse 1, TimerDue 1] detached = Some ticked"
  by (simp add: evals attached_def opened_def detached_def ticked_def)

lemma run_pinged: "run [Elapse 30000, TimerDue 1] opened = Some pinged"
  by (simp add: evals attached_def opened_def pinged_def)

lemma distinct_singleton:
  assumes "distinct xs" "x \<in> set xs" "\<forall>y \<in> set xs. y = x"
  shows "xs = [x]"
proof (cases xs)
  case Nil
  then show ?thesis using assms(2) by simp
next
  case (Cons a as)
  have a: "a = x"
    using assms(3) by (simp add: Cons)
  have "as = []"
  proof (cases as)
    case (Cons b bs)
    have "b = x"
      using assms(3) by (simp add: \<open>xs = a # as\<close> Cons)
    moreover have "b \<noteq> a"
      using assms(1) by (auto simp: \<open>xs = a # as\<close> Cons)
    ultimately show ?thesis
      using a by blast
  qed simp
  then show ?thesis
    by (simp add: Cons a)
qed

lemma ping_pending:
  assumes t: "timersOk s" and k: "keepalive s" and x: "x \<in> set (pendingOf (Ping h) s)"
  shows "pendingOf (Ping h) s = [x]" "period x = Some 30000" "now s \<le> due x"
    "due x \<le> now s + 30000" "pinned x s" "x \<in> set (timers s)" "callback x = Ping h"
proof -
  show xin: "x \<in> set (timers s)" and cb: "callback x = Ping h"
    using x by (simp_all add: pendingOf_def)
  have pt: "pingTimers s"
    using k by (simp add: keepalive_def)
  have d: "distinct (map ident (timers s))"
    using t by (simp add: timersOk_def)
  then have inj: "inj_on ident (set (timers s))" and dt: "distinct (timers s)"
    by (simp_all add: distinct_map)
  have g: "getPingInterval s h = Some (ident x)"
    using pt xin cb by (simp add: pingTimers_def)
  show "period x = Some 30000" "due x \<le> now s + 30000"
    using pt xin cb by (simp_all add: pingTimers_def)
  show "now s \<le> due x"
    using t xin by (simp add: timersOk_def)
  have same: "y = x" if "y \<in> set (pendingOf (Ping h) s)" for y
  proof -
    have y: "y \<in> set (timers s)" "callback y = Ping h"
      using that by (simp_all add: pendingOf_def)
    then have "getPingInterval s h = Some (ident y)"
      using pt by (simp add: pingTimers_def)
    then have "ident y = ident x" using g by simp
    then show ?thesis
      using inj y(1) xin by (auto simp: inj_on_def)
  qed
  have ds: "distinct (pendingOf (Ping h) s)"
    using dt by (simp add: pendingOf_def)
  have "\<forall>y \<in> set (pendingOf (Ping h) s). y = x"
    using same by blast
  with ds x show "pendingOf (Ping h) s = [x]"
    by (rule distinct_singleton)
  show "pinned x s"
    unfolding pinned_def using t xin inj by (auto simp: timersOk_def inj_on_def)
qed

lemma ping_tick:
  assumes t: "timersOk s" and k: "keepalive s" and x: "x \<in> set (pendingOf (Ping h) s)"
  shows "now s < due x \<Longrightarrow> fire (TimerDue (ident x)) s = None"
    and "now s = due x \<Longrightarrow>
         \<exists>s'. fire (TimerDue (ident x)) s = Some s' \<and>
           sent s' = sent s @ (if stateOf s h = Some OPEN then [(h, pingFrame)] else []) \<and>
           pendingOf (Ping h) s' = [x\<lparr>due := due x + 30000\<rparr>]"
proof -
  note p = ping_pending [OF t k x]
  have f: "find (\<lambda>y. ident y = ident x) (timers s) = Some x"
    using p(5,6) by (rule find_pinned)
  show "fire (TimerDue (ident x)) s = None" if "now s < due x"
    using that by (simp add: fire_def f)
  show "\<exists>s'. fire (TimerDue (ident x)) s = Some s' \<and>
           sent s' = sent s @ (if stateOf s h = Some OPEN then [(h, pingFrame)] else []) \<and>
           pendingOf (Ping h) s' = [x\<lparr>due := due x + 30000\<rparr>]" if "now s = due x"
  proof -
    let ?e = "expire x s"
    let ?s' = "if stateOf s h = Some OPEN then ?e\<lparr>sent := sent ?e @ [(h, pingFrame)]\<rparr> else ?e"
    have 1: "fire (TimerDue (ident x)) s = Some ?s'"
      using that by (simp add: fire_def f p(7) runTask_def pingTick_cases)
    have se: "sent ?e = sent s"
      by (simp add: expire_def split: option.splits)
    have pe: "pendingOf (Ping h) ?e = [x\<lparr>due := due x + 30000\<rparr>]"
      by (simp add: pendingOf_expire p(1,2))
    have 2: "sent ?s' = sent s @ (if stateOf s h = Some OPEN then [(h, pingFrame)] else [])"
      by (simp add: se)
    have 3: "pendingOf (Ping h) ?s' = [x\<lparr>due := due x + 30000\<rparr>]"
      using pe by (simp add: pendingOf_def)
    show ?thesis
      using 1 2 3 by blast
  qed
qed

lemma armed_iff: "armed s h = (\<exists>x \<in> set (timers s). callback x = Ping h)"
  by (auto simp: armed_def pendingOf_def filter_empty_conv)

lemma keepalive_armed:
  assumes k: "keepalive s"
  shows "stateOf s h = Some OPEN \<Longrightarrow> armed s h"
    and "armed s h \<Longrightarrow> stateOf s h = Some OPEN \<or> stateOf s h = Some CLOSING"
    and "isConnected s = (\<exists>h'. armed s h')"
    and "armed s h = (getPingInterval s h \<noteq> None)"
proof -
  have pt: "pingTimers s" and pv: "pingVars s" and po: "pingOpen s"
    using k by (simp_all add: keepalive_def)
  show iff: "armed s h = (getPingInterval s h \<noteq> None)" for h
  proof
    assume "armed s h"
    then show "getPingInterval s h \<noteq> None"
      using pt by (auto simp: armed_iff pingTimers_def)
  next
    assume "getPingInterval s h \<noteq> None"
    then obtain t where "getPingInterval s h = Some t" by auto
    then show "armed s h"
      using pv unfolding armed_iff pingVars_def by blast
  qed
  show "armed s h" if "stateOf s h = Some OPEN"
    using that po by (simp add: iff pingOpen_def)
  show "stateOf s h = Some OPEN \<or> stateOf s h = Some CLOSING" if "armed s h"
  proof -
    from that obtain t where "getPingInterval s h = Some t"
      by (auto simp: iff)
    then show ?thesis
      using pv unfolding pingVars_def by blast
  qed
  show "isConnected s = (\<exists>h'. armed s h')"
  proof
    assume "isConnected s"
    then show "\<exists>h'. armed s h'"
      using po by (simp add: iff pingOpen_def)
  next
    assume "\<exists>h'. armed s h'"
    then obtain h' t where "getPingInterval s h' = Some t"
      by (auto simp: iff)
    then show "isConnected s"
      using pv unfolding pingVars_def by blast
  qed
qed

section \<open>The claims\<close>

subsection \<open>C1: what \<open>connect\<close> guards against\<close>

text \<open>
  Claim C1, as amended. \<open>connect()\<close> does nothing exactly when the socket held in
  \<open>wsRef\<close> is open; in every other state, also when the socket held is still
  connecting, it constructs one more socket, connecting, and stores it in \<open>wsRef\<close>.
  In every state the hook reaches from its initial state, at most one socket is
  connecting or open.
\<close>

theorem connect_guard:
  "(isOpen s \<longrightarrow> connect s = s) \<and>
   (\<not> isOpen s \<longrightarrow>
      connect s = s\<lparr>conns := conns s @ [\<lparr>readyState = CONNECTING, pingInterval = None\<rparr>],
                    wsRef := Some (length (conns s))\<rparr>) \<and>
   (run es initial = Some s \<longrightarrow> (\<forall>h1 h2. liveAt s h1 \<and> liveAt s h2 \<longrightarrow> h1 = h2))"
proof -
  have "\<forall>h1 h2. liveAt s h1 \<and> liveAt s h2 \<longrightarrow> h1 = h2" if "run es initial = Some s"
    using reachable_single [OF that] by (blast intro: single_unique liveAt_unclosedAt)
  then show ?thesis
    by (auto simp: isOpen_def connect_def newWebSocket_def split: option.splits)
qed


theorem connect_guard_witness:
  "isOpen opened \<and> connect opened = opened \<and>
   \<not> isOpen attached \<and>
   connect attached = attached\<lparr>conns := conns attached @ [\<lparr>readyState = CONNECTING, pingInterval = None\<rparr>],
                               wsRef := Some (length (conns attached))\<rparr> \<and>
   run [Attach, OnOpen 0] initial = Some opened \<and> {h. liveAt opened h} = {0}"
proof -
  have o: "isOpen opened" "liveAt opened 0" and a: "\<not> isOpen attached"
    by (simp_all add: isOpen_def liveAt_def opened_def attached_def initial_def stateOf_def)
  have "\<forall>h1 h2. liveAt opened h1 \<and> liveAt opened h2 \<longrightarrow> h1 = h2"
    using connect_guard [of opened "[Attach, OnOpen 0]"] run_opened by blast
  then have "{h. liveAt opened h} = {0}"
    using o(2) by blast
  then show ?thesis
    using connect_guard [of opened "[Attach, OnOpen 0]"] connect_guard [of attached "[]"]
      o a run_opened by blast
qed

text \<open>
  C1 as it was stated fails: after the effect has run the socket in \<open>wsRef\<close> is
  connecting, and a further \<open>connect()\<close> there constructs a second socket, so that two
  sockets are connecting at once.
\<close>

theorem connect_guard_counterexample:
  "run [Attach] initial = Some attached \<and> wsRef attached = Some 0 \<and>
   stateOf attached 0 = Some CONNECTING \<and> connect attached \<noteq> attached \<and>
   map readyState (conns (connect attached)) = [CONNECTING, CONNECTING] \<and>
   liveAt (connect attached) 0 \<and> liveAt (connect attached) 1"
proof -
  have "conns (connect attached) \<noteq> conns attached"
    by (simp add: attached_def initial_def connect_def newWebSocket_def stateOf_def)
  then have "connect attached \<noteq> attached"
    by auto
  moreover have "wsRef attached = Some 0" "stateOf attached 0 = Some CONNECTING"
    "map readyState (conns (connect attached)) = [CONNECTING, CONNECTING]"
    "liveAt (connect attached) 0" "liveAt (connect attached) 1"
    by (simp_all add: attached_def initial_def connect_def newWebSocket_def stateOf_def liveAt_def)
  ultimately show ?thesis
    using run_attached by blast
qed

subsection \<open>C2: after the cleanup\<close>

text \<open>
  Claim C2 says that nothing runs and nothing changes once the effect's cleanup has
  run. The code does otherwise. The cleanup closes the socket; the close event then
  runs \<open>onclose\<close>, which schedules a reconnect, and 3000 ms later \<open>connect\<close> constructs a
  new socket, all in the detached phase. Invalidations already handed to
  \<open>requestAnimationFrame\<close> are delivered after the cleanup as well.
\<close>

theorem callbacks_after_detach:
  "map_option (\<lambda>s. (phase s, map readyState (conns s), reconnectTimeoutRef s, map callback (timers s)))
     (run [Attach, OnOpen 0, Detach] initial) = Some (Detached, [CLOSING], None, [Ping 0]) \<and>
   map_option (\<lambda>s. (phase s, map readyState (conns s), reconnectTimeoutRef s, map callback (timers s)))
     (run [Attach, OnOpen 0, Detach, OnClose 0] initial) = Some (Detached, [CLOSED], Some 2, [Reconnect]) \<and>
   map_option (\<lambda>s. (phase s, map readyState (conns s), wsRef s, now s))
     (run [Attach, OnOpen 0, Detach, OnClose 0, Elapse 3000, TimerDue 2] initial) =
       Some (Detached, [CLOSED, CONNECTING], Some 1, 3000) \<and>
   map_option (\<lambda>s. (phase s, invalidated s, frames s))
     (run [Attach, OnOpen 0,
           OnMessage 0 (Decoded \<lparr>type = ''archive_updated'', printer_id = None, data = None\<rparr>),
           Elapse 100, TimerDue 2, Detach] initial) = Some (Detached, [], [[''archives'']]) \<and>
   map_option (\<lambda>s. (phase s, invalidated s, frames s))
     (run [Attach, OnOpen 0,
           OnMessage 0 (Decoded \<lparr>type = ''archive_updated'', printer_id = None, data = None\<rparr>),
           Elapse 100, TimerDue 2, Detach, AnimationFrame] initial) = Some (Detached, [''archives''], [])"
  by (simp add: evals)

subsection \<open>C3: merging a status payload\<close>

text \<open>
  Claim C3. The snapshot written for a \<open>printer_status\<close> message is the shallow union
  of the old snapshot and the payload, the payload winning, except that \<open>wifi_signal\<close>
  keeps its old value when the union would leave it \<open>null\<close> or absent and the old value
  was not \<open>null\<close>. Merging \<open>{wifi_signal: null}\<close> onto
  \<open>{wifi_signal: -42, state: "IDLE"}\<close> gives the snapshot back, and merging
  \<open>{wifi_signal: -50}\<close> onto it changes the signal only.
\<close>

theorem merge_refines:
  "mergeStatus S (Some P) = spec_merge S P \<and>
   queryData (handleMessage \<lparr>type = ''printer_status'', printer_id = Some pid, data = Some P\<rparr> s) =
     (queryData s)((''printerStatus'', Some pid) \<mapsto>
        spec_merge (queryData s (''printerStatus'', Some pid)) P) \<and>
   mergeStatus (Some idleSnapshot) (Some [''wifi_signal'' \<mapsto> JNull]) = idleSnapshot \<and>
   mergeStatus (Some idleSnapshot) (Some [''wifi_signal'' \<mapsto> JNum (- 50)]) =
     [''wifi_signal'' \<mapsto> JNum (- 50), ''state'' \<mapsto> JStr ''IDLE'']"
proof -
  have m: "mergeStatus S' (Some P') = spec_merge S' P'" for S' P'
    by (rule ext)
       (auto simp: mergeStatus_def spec_merge_def spec_union_def spread_def nullish_def
          map_add_def Let_def split: option.splits)
  have "queryData (handleMessage \<lparr>type = ''printer_status'', printer_id = Some pid, data = Some P\<rparr> s) =
     (queryData s)((''printerStatus'', Some pid) \<mapsto>
        mergeStatus (queryData s (''printerStatus'', Some pid)) (Some P))"
    by (simp add: handleMessage_def setQueryData_def)
  moreover have "mergeStatus (Some idleSnapshot) (Some [''wifi_signal'' \<mapsto> JNull]) = idleSnapshot"
    by (rule ext) (simp add: mergeStatus_def idleSnapshot_def spread_def nullish_def map_add_def)
  moreover have "mergeStatus (Some idleSnapshot) (Some [''wifi_signal'' \<mapsto> JNum (- 50)]) =
     [''wifi_signal'' \<mapsto> JNum (- 50), ''state'' \<mapsto> JStr ''IDLE'']"
    by (rule ext) (simp add: mergeStatus_def idleSnapshot_def spread_def nullish_def map_add_def)
  ultimately show ?thesis
    by (simp add: m)
qed

theorem merge_refines_witness:
  "mergeStatus None (Some [''state'' \<mapsto> JStr ''RUNNING'', ''wifi_signal'' \<mapsto> JNum (- 40)]) =
     spec_merge None [''state'' \<mapsto> JStr ''RUNNING'', ''wifi_signal'' \<mapsto> JNum (- 40)] \<and>
   spec_merge None [''state'' \<mapsto> JStr ''RUNNING'', ''wifi_signal'' \<mapsto> JNum (- 40)] ''wifi_signal'' =
     Some (JNum (- 40))"
proof -
  have "spec_merge None [''state'' \<mapsto> JStr ''RUNNING'', ''wifi_signal'' \<mapsto> JNum (- 40)] ''wifi_signal'' =
     Some (JNum (- 40))"
    by (simp add: spec_merge_def spec_union_def)
  then show ?thesis
    using merge_refines [of None "[''state'' \<mapsto> JStr ''RUNNING'', ''wifi_signal'' \<mapsto> JNum (- 40)]"]
    by blast
qed

subsection \<open>C4: coalesced invalidations\<close>

text \<open>
  Claim C4. Start with nothing pending in the coalescer, and let one or more requests
  arrive with no timer running in between. Then nothing is delivered while the requests
  arrive; one flush timer is pending, due 100 ms after the last request, and it cannot
  run earlier; when it has run and the next animation frame has come, the downstream
  invalidations are the requested keys, each exactly once, so one for a single key
  requested many times and K for K distinct keys.
\<close>

theorem coalesced_invalidation:
  assumes "idle s" "rs \<noteq> []" "burst rs s = Some s'"
  shows "\<exists>t ks.
     invalidated s' = invalidated s \<and> frames s' = [] \<and>
     pendingInvalidations s' = ks \<and> distinct ks \<and> set ks = snd ` set rs \<and>
     length ks = card (snd ` set rs) \<and>
     invalidationTimeoutRef s' = Some t \<and>
     pendingOf Flush s' = [\<lparr>ident = t, due = now s' + 100, period = None, callback = Flush\<rparr>] \<and>
     (\<forall>n. n < now s' + 100 \<longrightarrow> fire (TimerDue t) (s'\<lparr>now := n\<rparr>) = None) \<and>
     (\<forall>n. now s' + 100 \<le> n \<longrightarrow>
        (\<exists>s1 s2. fire (TimerDue t) (s'\<lparr>now := n\<rparr>) = Some s1 \<and>
           invalidated s1 = invalidated s \<and> pendingOf Flush s1 = [] \<and>
           fire AnimationFrame s1 = Some s2 \<and> invalidated s2 = invalidated s @ ks \<and>
           frames s2 = [] \<and> pendingInvalidations s2 = []))"
proof -
  let ?ks = "fold set_add (map snd rs) []"
  from coalescing_burst [OF idle_coalescing [OF assms(1)] assms(2,3)]
  have c: "coalescing s' ?ks (invalidated s)" and p: "pendingOf Flush s' = [flushTimer s']"
    and q: "pinned (flushTimer s') s'" and r: "invalidationTimeoutRef s' = Some (timerSeq s')"
    by blast+
  have d: "distinct ?ks" "pendingInvalidations s' = ?ks" "frames s' = []"
    "invalidated s' = invalidated s"
    using c by (simp_all add: coalescing_def)
  have st: "set ?ks = snd ` set rs"
    by (simp add: fold_set_add)
  have len: "length ?ks = card (snd ` set rs)"
    using d(1) st distinct_card [of ?ks] by simp
  note del = flush_delivery [OF c p q]
  show ?thesis
    apply (rule exI [of _ "timerSeq s'"], rule exI [of _ ?ks])
    using d st len r p del by (simp add: flushTimer_def)
qed


theorem coalesced_invalidation_witness:
  "idle opened \<and>
   burst [(0, ''archives''), (0, ''archiveStats''), (50, ''archives''), (0, ''archiveStats'')] opened =
     Some bursted \<and>
   pendingInvalidations bursted = [''archives'', ''archiveStats''] \<and> invalidated bursted = [] \<and>
   fire (TimerDue 5) (bursted\<lparr>now := 149\<rparr>) = None \<and>
   (\<exists>s1 s2. fire (TimerDue 5) (bursted\<lparr>now := 150\<rparr>) = Some s1 \<and> invalidated s1 = [] \<and>
      fire AnimationFrame s1 = Some s2 \<and> invalidated s2 = [''archives'', ''archiveStats''])"
proof -
  have ne: "[(0, ''archives''), (0, ''archiveStats''), (50, ''archives''), (0::nat, ''archiveStats'')] \<noteq> []"
    by simp
  from coalesced_invalidation [OF idle_opened ne burst_opened]
  obtain t ks where
    a: "pendingInvalidations bursted = ks" "invalidationTimeoutRef bursted = Some t"
      "invalidated bursted = invalidated opened"
    and early: "\<forall>n. n < now bursted + 100 \<longrightarrow> fire (TimerDue t) (bursted\<lparr>now := n\<rparr>) = None"
    and late: "\<forall>n. now bursted + 100 \<le> n \<longrightarrow>
        (\<exists>s1 s2. fire (TimerDue t) (bursted\<lparr>now := n\<rparr>) = Some s1 \<and>
           invalidated s1 = invalidated opened \<and> pendingOf Flush s1 = [] \<and>
           fire AnimationFrame s1 = Some s2 \<and> invalidated s2 = invalidated opened @ ks \<and>
           frames s2 = [] \<and> pendingInvalidations s2 = [])"
    by blast
  have v: "t = 5" "ks = [''archives'', ''archiveStats'']" "now bursted = 50" "invalidated opened = []"
    using a by (simp_all add: bursted_def opened_def attached_def initial_def)
  have e: "fire (TimerDue 5) (bursted\<lparr>now := 149\<rparr>) = None"
    using early [rule_format, of 149] by (simp add: v)
  have l: "\<exists>s1 s2. fire (TimerDue 5) (bursted\<lparr>now := 150\<rparr>) = Some s1 \<and> invalidated s1 = [] \<and>
      fire AnimationFrame s1 = Some s2 \<and> invalidated s2 = [''archives'', ''archiveStats'']"
  proof -
    have "\<exists>s1 s2. fire (TimerDue 5) (bursted\<lparr>now := 150\<rparr>) = Some s1 \<and>
           invalidated s1 = [] \<and> pendingOf Flush s1 = [] \<and>
           fire AnimationFrame s1 = Some s2 \<and> invalidated s2 = [''archives'', ''archiveStats''] \<and>
           frames s2 = [] \<and> pendingInvalidations s2 = []"
      using late [rule_format, of 150] by (simp add: v)
    then show ?thesis by blast
  qed
  show ?thesis
    using idle_opened burst_opened a(1,3) e l by (simp add: v)
qed

subsection \<open>C5: the connected flag\<close>

text \<open>
  Claim C5, as amended. After every sequence of events, the connected flag is true
  exactly when the most recent open or close event was an open event. An error event
  does not clear the flag by itself: its handler closes the socket, and the flag drops
  at the close event that follows.
\<close>

theorem connected_flag:
  "run es initial = Some s \<Longrightarrow> isConnected s = mostRecentIsOpen False es"
  using isConnected_run [of es initial s]
  by (simp add: mostRecentIsOpen_def initial_def split: list.splits)


theorem connected_flag_witness:
  "run [Attach, OnOpen 0, OnError 0] initial = Some errored \<and>
   isConnected errored = mostRecentIsOpen False [Attach, OnOpen 0, OnError 0] \<and>
   isConnected errored"
proof -
  have "isConnected errored"
    by (simp add: errored_def opened_def)
  then show ?thesis
    using run_errored connected_flag [OF run_errored] by blast
qed

text \<open>
  C5 as it was stated counts the error event as ending the connection. Right after an
  error on an open socket the flag is still true.
\<close>

theorem connected_flag_counterexample:
  "run [Attach, OnOpen 0, OnError 0] initial = Some errored \<and> isConnected errored \<and>
   \<not> mostRecentIsOpen True [Attach, OnOpen 0, OnError 0]"
proof -
  have "isConnected errored"
    by (simp add: errored_def opened_def)
  moreover have "\<not> mostRecentIsOpen True [Attach, OnOpen 0, OnError 0]"
    by (simp add: mostRecentIsOpen_def lifecycle_def)
  ultimately show ?thesis
    using run_errored by blast
qed

subsection \<open>C6: the reconnect after a close\<close>

text \<open>
  Claim C6. In every state the hook reaches, a close event leaves exactly one reconnect
  timer pending, due 3000 ms after the close whatever happened before; when that timer
  runs, the clock reads exactly that time and a new socket is constructed. After an
  error event the socket is neither connecting nor open, and the close event that
  follows schedules the reconnect in the same way. Before and after the close, at most one socket is
  connecting or open.
\<close>

theorem reconnect_after_close:
  assumes "run es initial = Some s" "fire (OnClose h) s = Some s'"
  shows "pendingOf Reconnect s' =
           [\<lparr>ident = timerSeq s', due = now s + 3000, period = None, callback = Reconnect\<rparr>] \<and>
         reconnectTimeoutRef s' = Some (timerSeq s') \<and>
         (\<forall>es' s2 s3. run es' s' = Some s2 \<and> fire (TimerDue (timerSeq s')) s2 = Some s3 \<longrightarrow>
            now s2 = now s + 3000 \<and>
            conns s3 = conns s2 @ [\<lparr>readyState = CONNECTING, pingInterval = None\<rparr>]) \<and>
         (\<exists>s1 s2. fire (OnError h) s = Some s1 \<and> \<not> liveAt s1 h \<and>
            fire (OnClose h) s1 = Some s2 \<and>
            pendingOf Reconnect s2 =
              [\<lparr>ident = timerSeq s2, due = now s + 3000, period = None, callback = Reconnect\<rparr>]) \<and>
         (\<forall>h1 h2. liveAt s h1 \<and> liveAt s h2 \<longrightarrow> h1 = h2) \<and>
         (\<forall>h1 h2. liveAt s' h1 \<and> liveAt s' h2 \<longrightarrow> h1 = h2)"
proof -
  let ?x = "\<lparr>ident = timerSeq s', due = now s + 3000, period = None, callback = Reconnect\<rparr>"
  have inv: "single s" "timersOk s"
    using assms(1) by (rule reachable_single, rule reachable_timersOk)
  have r': "run (es @ [OnClose h]) initial = Some s'"
    using assms by (rule run_snoc)
  have inv': "single s'" "timersOk s'"
    using r' by (rule reachable_single, rule reachable_timersOk)
  note sch = onclose_schedules [OF inv assms(2)]
  have timing: "now s2 = now s + 3000 \<and>
      conns s3 = conns s2 @ [\<lparr>readyState = CONNECTING, pingInterval = None\<rparr>]"
    if "run es' s' = Some s2" "fire (TimerDue (timerSeq s')) s2 = Some s3" for es' s2 s3
  proof -
    have p: "pinned ?x s2"
      using sch(3) _ that(1) by (rule pinned_run) simp
    have i: "single s2" "timersOk s2"
      using inv' that(1) by (auto intro: single_run timersOk_run)
    have f: "fire (TimerDue (ident ?x)) s2 = Some s3"
      using that(2) by simp
    show ?thesis
      using reconnect_fires(1,2) [OF i p _ f] by simp
  qed
  have en: "stateOf s h \<noteq> None" "stateOf s h \<noteq> Some CLOSED"
    using assms(2) by (auto simp: fire_def split: if_splits)
  have e1: "fire (OnError h) s = Some (ws_close h s)"
    using en by (simp add: fire_def onerror_def)
  have c1: "stateOf (ws_close h s) h = Some CLOSING"
    using en by (cases "stateOf s h") (auto simp: stateOf_ws_close intro: readyState.exhaust)
  then obtain s2 where e2: "fire (OnClose h) (ws_close h s) = Some s2"
    by (simp add: fire_def)
  have r1: "run (es @ [OnError h]) initial = Some (ws_close h s)"
    using assms(1) e1 by (rule run_snoc)
  have "pendingOf Reconnect s2 =
      [\<lparr>ident = timerSeq s2, due = now (ws_close h s) + 3000, period = None, callback = Reconnect\<rparr>]"
    using r1 e2 by (intro onclose_schedules(1) reachable_single reachable_timersOk)
  then have err: "\<exists>s1 s2. fire (OnError h) s = Some s1 \<and> \<not> liveAt s1 h \<and>
            fire (OnClose h) s1 = Some s2 \<and>
            pendingOf Reconnect s2 =
              [\<lparr>ident = timerSeq s2, due = now s + 3000, period = None, callback = Reconnect\<rparr>]"
    using e1 c1 e2 by (auto simp: liveAt_def)
  have u: "\<forall>h1 h2. liveAt t h1 \<and> liveAt t h2 \<longrightarrow> h1 = h2" if "single t" for t
    using that by (blast intro: single_unique liveAt_unclosedAt)
  show ?thesis
    using sch(1,2) timing err u [OF inv(1)] u [OF inv'(1)] by blast
qed

theorem reconnect_after_close_witness:
  "run [Attach, OnOpen 0] initial = Some opened \<and> fire (OnClose 0) opened = Some closed \<and>
   pendingOf Reconnect closed = [\<lparr>ident = 2, due = 3000, period = None, callback = Reconnect\<rparr>] \<and>
   reconnectTimeoutRef closed = Some 2 \<and>
   run [Elapse 3000] closed = Some waiting \<and> fire (TimerDue 2) waiting = Some reconnecting \<and>
   now waiting = 3000 \<and>
   conns reconnecting = conns waiting @ [\<lparr>readyState = CONNECTING, pingInterval = None\<rparr>]"
proof -
  have seq: "timerSeq closed = 2" and t0: "now opened = 0"
    by (simp_all add: closed_def opened_def attached_def initial_def)
  note main = reconnect_after_close [OF run_opened fire_closed]
  from main have "pendingOf Reconnect closed =
      [\<lparr>ident = timerSeq closed, due = now opened + 3000, period = None, callback = Reconnect\<rparr>]"
    and "reconnectTimeoutRef closed = Some (timerSeq closed)"
    by blast+
  moreover from main have
    "run [Elapse 3000] closed = Some waiting \<and> fire (TimerDue (timerSeq closed)) waiting = Some reconnecting \<longrightarrow>
       now waiting = now opened + 3000 \<and>
       conns reconnecting = conns waiting @ [\<lparr>readyState = CONNECTING, pingInterval = None\<rparr>]"
    by blast
  ultimately show ?thesis
    using run_opened fire_closed run_waiting fire_reconnecting by (simp add: seq t0)
qed

subsection \<open>C7: sending\<close>

text \<open>
  Claim C7. \<open>sendMessage\<close> transmits the message on the socket in \<open>wsRef\<close> if that socket
  is open. Otherwise it raises nothing and leaves the state as it was, so that whatever
  happens later happens as if it had not been called. In a state the hook reaches, the
  socket in \<open>wsRef\<close> is open as soon as any socket is, and the connected flag is true
  then.
\<close>

theorem send_only_when_open:
  "(\<exists>s'. sendMessage m s = Inr s' \<and> (sent s' \<noteq> sent s) = isOpen s) \<and>
   (isOpen s \<longrightarrow> (\<exists>h. wsRef s = Some h \<and> sendMessage m s = Inr (s\<lparr>sent := sent s @ [(h, m)]\<rparr>))) \<and>
   (\<not> isOpen s \<longrightarrow> sendMessage m s = Inr s \<and> run (Send m # es) s = run es s) \<and>
   (run es0 initial = Some s \<longrightarrow>
      isOpen s = (\<exists>h. stateOf s h = Some OPEN) \<and> (isOpen s \<longrightarrow> isConnected s))"
proof -
  have a: "\<exists>h. wsRef s = Some h \<and> sendMessage m s = Inr (s\<lparr>sent := sent s @ [(h, m)]\<rparr>)"
    if "isOpen s"
    using that by (auto simp: isOpen_def sendMessage_def ws_send_def split: option.splits)
  have b: "sendMessage m s = Inr s" if "\<not> isOpen s"
    using that by (auto simp: isOpen_def sendMessage_def ws_send_def split: option.splits)
  then have c: "run (Send m # es) s = run es s" if "\<not> isOpen s"
    using that by (simp add: fire_def)
  have e: "\<exists>s'. sendMessage m s = Inr s' \<and> (sent s' \<noteq> sent s) = isOpen s"
  proof (cases "isOpen s")
    case True
    from a [OF True] obtain h where "sendMessage m s = Inr (s\<lparr>sent := sent s @ [(h, m)]\<rparr>)"
      by blast
    then show ?thesis
      using True by simp
  next
    case False
    then show ?thesis
      using b by simp
  qed
  have d: "isOpen s = (\<exists>h. stateOf s h = Some OPEN)" if "run es0 initial = Some s"
  proof
    assume "isOpen s"
    then show "\<exists>h. stateOf s h = Some OPEN"
      by (auto simp: isOpen_def split: option.splits)
  next
    assume "\<exists>h. stateOf s h = Some OPEN"
    then obtain h where h: "stateOf s h = Some OPEN" ..
    then have "unclosedAt s h"
      by (simp add: unclosedAt_def)
    moreover have "\<forall>k. unclosedAt s k \<longrightarrow> wsRef s = Some k"
      using reachable_single [OF that] unfolding single_def by blast
    ultimately have "wsRef s = Some h" by blast
    then show "isOpen s"
      using h by (simp add: isOpen_def)
  qed
  have f: "isConnected s" if "run es0 initial = Some s" "isOpen s"
  proof -
    from that(2) obtain h where "stateOf s h = Some OPEN"
      by (auto simp: isOpen_def split: option.splits)
    then have "armed s h"
      using keepalive_armed(1) [OF reachable_keepalive [OF that(1)]] by blast
    then show ?thesis
      using keepalive_armed(3) [OF reachable_keepalive [OF that(1)]] by blast
  qed
  show ?thesis
    using a b c d e f by blast
qed

theorem send_only_when_open_witness:
  "isOpen opened \<and>
   sendMessage [''type'' \<mapsto> JStr ''hello''] opened =
     Inr (opened\<lparr>sent := [(0, [''type'' \<mapsto> JStr ''hello''])]\<rparr>) \<and>
   \<not> isOpen attached \<and> sendMessage [''type'' \<mapsto> JStr ''hello''] attached = Inr attached \<and>
   run [Send [''type'' \<mapsto> JStr ''hello''], OnOpen 0] attached = run [OnOpen 0] attached \<and>
   run [Attach, OnOpen 0] initial = Some opened \<and> (\<exists>h. stateOf opened h = Some OPEN)"
proof -
  have o: "isOpen opened" "wsRef opened = Some 0" "sent opened = []"
    and a: "\<not> isOpen attached"
    by (simp_all add: isOpen_def opened_def attached_def initial_def stateOf_def)
  show ?thesis
    using send_only_when_open [of "[''type'' \<mapsto> JStr ''hello'']" opened "[]" "[Attach, OnOpen 0]"]
      send_only_when_open [of "[''type'' \<mapsto> JStr ''hello'']" attached "[OnOpen 0]" "[]"]
      o a run_opened
    by auto
qed

subsection \<open>C8: the keepalive interval\<close>

text \<open>
  Claim C8, as amended. In every state the hook reaches, the keepalive interval of a
  socket is pending whenever the socket is open, and a pending interval belongs to a
  socket that is open or closing; it is pending exactly as long as the connected flag is
  true. The open event starts it, with its first tick 30000 ms later; \<open>close()\<close> does
  not stop it, the close event does. There is at most one interval for a socket, its
  period is 30000 ms, and the tick that is due sends exactly the frame
  \<open>{"type":"ping"}\<close> if the socket is open at that moment and nothing otherwise, and is
  due again 30000 ms later.
\<close>

theorem keepalive_interval:
  assumes "run es initial = Some s"
  shows "(stateOf s h = Some OPEN \<longrightarrow> armed s h) \<and>
     (armed s h \<longrightarrow> stateOf s h = Some OPEN \<or> stateOf s h = Some CLOSING) \<and>
     isConnected s = (\<exists>h'. armed s h') \<and>
     armed (ws_close h s) h = armed s h \<and>
     (\<forall>s'. fire (OnOpen h) s = Some s' \<longrightarrow>
        pendingOf (Ping h) s' =
          [\<lparr>ident = timerSeq s', due = now s + 30000, period = Some 30000, callback = Ping h\<rparr>]) \<and>
     (\<forall>s'. fire (OnClose h) s = Some s' \<longrightarrow> \<not> armed s' h) \<and>
     (\<forall>x. x \<in> set (pendingOf (Ping h) s) \<longrightarrow>
        pendingOf (Ping h) s = [x] \<and> period x = Some 30000 \<and>
        now s \<le> due x \<and> due x \<le> now s + 30000 \<and>
        (now s < due x \<longrightarrow> fire (TimerDue (ident x)) s = None) \<and>
        (now s = due x \<longrightarrow>
           (\<exists>s'. fire (TimerDue (ident x)) s = Some s' \<and>
              sent s' = sent s @ (if stateOf s h = Some OPEN then [(h, pingFrame)] else []) \<and>
              pendingOf (Ping h) s' = [x\<lparr>due := due x + 30000\<rparr>])))"
proof -
  have t: "timersOk s" and k: "keepalive s"
    using assms by (rule reachable_timersOk, rule reachable_keepalive)
  note a = keepalive_armed(1,2) [OF k, of h] keepalive_armed(3) [OF k]
  have c: "armed (ws_close h s) h = armed s h"
    by (simp add: armed_def pendingOf_def)
  have o: "pendingOf (Ping h) s' =
          [\<lparr>ident = timerSeq s', due = now s + 30000, period = Some 30000, callback = Ping h\<rparr>]"
    if "fire (OnOpen h) s = Some s'" for s'
  proof -
    from that have cn: "stateOf s h = Some CONNECTING" and s': "s' = onopen h (setReadyState h OPEN s)"
      by (auto simp: fire_def split: if_splits)
    have "\<not> armed s h"
      using a(2) cn by auto
    then have "pendingOf (Ping h) s = []"
      by (simp add: armed_def)
    then show ?thesis
      by (simp add: s' pendingOf_def timers_onopen)
  qed
  have cl: "\<not> armed s' h" if "fire (OnClose h) s = Some s'" for s'
  proof -
    have "run (es @ [OnClose h]) initial = Some s'"
      using assms that by (rule run_snoc)
    then have "keepalive s'" by (rule reachable_keepalive)
    moreover have "getPingInterval s' h = None"
      using that by (auto simp: fire_def getPingInterval_onclose split: if_splits)
    ultimately show ?thesis
      using keepalive_armed(4) by simp
  qed
  have tk: "pendingOf (Ping h) s = [x] \<and> period x = Some 30000 \<and>
        now s \<le> due x \<and> due x \<le> now s + 30000 \<and>
        (now s < due x \<longrightarrow> fire (TimerDue (ident x)) s = None) \<and>
        (now s = due x \<longrightarrow>
           (\<exists>s'. fire (TimerDue (ident x)) s = Some s' \<and>
              sent s' = sent s @ (if stateOf s h = Some OPEN then [(h, pingFrame)] else []) \<and>
              pendingOf (Ping h) s' = [x\<lparr>due := due x + 30000\<rparr>]))"
    if "x \<in> set (pendingOf (Ping h) s)" for x
    using ping_pending(1-4) [OF t k that] ping_tick [OF t k that] by (intro conjI impI)
  show ?thesis
  proof (intro conjI allI impI)
    show "armed s h" if "stateOf s h = Some OPEN"
      using that by (rule a(1))
    show "stateOf s h = Some OPEN \<or> stateOf s h = Some CLOSING" if "armed s h"
      using that by (rule a(2))
    show "isConnected s = (\<exists>h'. armed s h')"
      by (rule a(3))
    show "armed (ws_close h s) h = armed s h"
      by (rule c)
    show "pendingOf (Ping h) s' =
          [\<lparr>ident = timerSeq s', due = now s + 30000, period = Some 30000, callback = Ping h\<rparr>]"
      if "fire (OnOpen h) s = Some s'" for s'
      using that by (rule o)
    show "\<not> armed s' h" if "fire (OnClose h) s = Some s'" for s'
      using that by (rule cl)
  qed (insert tk, blast+)
qed


theorem keepalive_interval_witness:
  "run [Attach, OnOpen 0] initial = Some opened \<and> stateOf opened 0 = Some OPEN \<and> armed opened 0 \<and>
   isConnected opened \<and>
   pendingOf (Ping 0) opened =
     [\<lparr>ident = 1, due = 30000, period = Some 30000, callback = Ping 0\<rparr>] \<and>
   fire (OnClose 0) opened = Some closed \<and> \<not> armed closed 0 \<and>
   run [Attach, OnOpen 0, Elapse 30000] initial = Some (opened\<lparr>now := 30000\<rparr>) \<and>
   fire (TimerDue 1) (opened\<lparr>now := 30000\<rparr>) = Some pinged \<and> sent pinged = [(0, pingFrame)] \<and>
   pendingOf (Ping 0) pinged = [\<lparr>ident = 1, due = 60000, period = Some 30000, callback = Ping 0\<rparr>]"
proof -
  let ?x = "\<lparr>ident = 1, due = 30000, period = Some 30000, callback = Ping 0\<rparr>"
  let ?w = "opened\<lparr>now := 30000\<rparr>"
  have o: "stateOf opened 0 = Some OPEN" "pendingOf (Ping 0) opened = [?x]"
    by (simp_all add: opened_def attached_def initial_def stateOf_def pendingOf_def)
  have w: "run [Attach, OnOpen 0, Elapse 30000] initial = Some ?w"
    by (simp add: evals attached_def opened_def)
  have f: "fire (TimerDue 1) ?w = Some pinged"
    using run_pinged by (simp add: evals attached_def opened_def)
  have wf: "?x \<in> set (pendingOf (Ping 0) ?w)" "now ?w = due ?x" "sent ?w = []"
    by (simp_all add: opened_def attached_def initial_def pendingOf_def)
  from keepalive_interval [OF run_opened, of 0]
  have 1: "armed opened 0" "isConnected opened" "\<not> armed closed 0"
    using o(1) fire_closed by blast+
  from keepalive_interval [OF w, of 0] wf(1,2)
  have "\<exists>s'. fire (TimerDue (ident ?x)) ?w = Some s' \<and>
      sent s' = sent ?w @ (if stateOf ?w 0 = Some OPEN then [(0, pingFrame)] else []) \<and>
      pendingOf (Ping 0) s' = [?x\<lparr>due := due ?x + 30000\<rparr>]"
    by blast
  then have 2: "sent pinged = [(0, pingFrame)]"
    "pendingOf (Ping 0) pinged = [\<lparr>ident = 1, due = 60000, period = Some 30000, callback = Ping 0\<rparr>]"
    using f by (simp_all add: o(1) wf(3))
  show ?thesis
    using run_opened o 1 fire_closed w f 2 by blast
qed

text \<open>
  C8 as it was stated fails between \<open>close()\<close> and the close event. When the cleanup
  closes an open socket 29999 ms after it opened, the socket is closing, yet its interval
  is still pending and the connected flag is still true; the tick one millisecond later
  sends nothing.
\<close>

theorem keepalive_interval_counterexample:
  "run [Attach, OnOpen 0, Elapse 29999, Detach] initial = Some detached \<and>
   stateOf detached 0 = Some CLOSING \<and> armed detached 0 \<and> isConnected detached \<and>
   run [Elapse 1, TimerDue 1] detached = Some ticked \<and> sent ticked = [] \<and> armed ticked 0"
proof -
  have "stateOf detached 0 = Some CLOSING" "armed detached 0" "isConnected detached"
    "sent ticked = []" "armed ticked 0"
    by (simp_all add: armed_def pendingOf_def stateOf_def ticked_def detached_def opened_def
          attached_def initial_def)
  then show ?thesis
    using run_detached run_ticked by blast
qed

subsection \<open>C9: frames that are dropped\<close>

text \<open>
  Claim C9. A frame that \<open>JSON.parse\<close> rejects, and a decoded frame whose \<open>type\<close> is none
  of \<open>printer_status\<close>, \<open>print_complete\<close>, \<open>archive_created\<close>, \<open>archive_updated\<close> and
  \<open>pong\<close>, raises nothing and leaves the whole state, the cache with it, as it was.
\<close>

theorem unknown_frame_dropped:
  "f = Undecodable \<or>
   (\<exists>m. f = Decoded m \<and>
        type m \<notin> {''printer_status'', ''print_complete'', ''archive_created'',
                   ''archive_updated'', ''pong''}) \<Longrightarrow>
   onmessage f s = Inr s \<and> (stateOf s h = Some OPEN \<longrightarrow> fire (OnMessage h f) s = Some s)"
  by (auto simp: onmessage_def JSON_parse_def handleMessage_def fire_def)

theorem unknown_frame_dropped_witness:
  "onmessage Undecodable opened = Inr opened \<and>
   type \<lparr>type = ''hello'', printer_id = Some 7, data = None\<rparr> \<notin>
     {''printer_status'', ''print_complete'', ''archive_created'', ''archive_updated'', ''pong''} \<and>
   onmessage (Decoded \<lparr>type = ''hello'', printer_id = Some 7, data = None\<rparr>) opened = Inr opened \<and>
   stateOf opened 0 = Some OPEN \<and>
   fire (OnMessage 0 (Decoded \<lparr>type = ''hello'', printer_id = Some 7, data = None\<rparr>)) opened =
     Some opened"
proof -
  have n: "type \<lparr>type = ''hello'', printer_id = Some 7, data = None\<rparr> \<notin>
     {''printer_status'', ''print_complete'', ''archive_created'', ''archive_updated'', ''pong''}"
    by simp
  have o: "stateOf opened 0 = Some OPEN"
    by (simp add: opened_def attached_def initial_def stateOf_def)
  show ?thesis
    using unknown_frame_dropped [of Undecodable opened 0]
      unknown_frame_dropped [of "Decoded \<lparr>type = ''hello'', printer_id = Some 7, data = None\<rparr>" opened 0]
      n o
    by blast
qed

subsection \<open>C10: a status message without a printer\<close>

text \<open>
  Claim C10. A \<open>printer_status\<close> message whose \<open>printer_id\<close> is absent writes nothing:
  the handler returns the state it was given, and every cache key keeps its value.
\<close>

theorem status_without_printer:
  "type m = ''printer_status'' \<Longrightarrow> printer_id m = None \<Longrightarrow>
   handleMessage m s = s \<and> onmessage (Decoded m) s = Inr s \<and>
   queryData (handleMessage m s) = queryData s"
  by (simp add: onmessage_def JSON_parse_def handleMessage_def)

theorem status_without_printer_witness:
  "handleMessage \<lparr>type = ''printer_status'', printer_id = None,
       data = Some [''state'' \<mapsto> JStr ''RUNNING'']\<rparr> opened = opened \<and>
   onmessage (Decoded \<lparr>type = ''printer_status'', printer_id = None,
       data = Some [''state'' \<mapsto> JStr ''RUNNING'']\<rparr>) opened = Inr opened"
  using status_without_printer [of "\<lparr>type = ''printer_status'', printer_id = None,
       data = Some [''state'' \<mapsto> JStr ''RUNNING'']\<rparr>" opened]
  by simp

end
